theory Spec2Isabelle
  imports Main "HOL-Library.Word"
begin

unbundle bit_operations_syntax

section \<open>Memory\<close>

text \<open>
  The allocator of \<open>mm.c\<close> works on raw memory through casts, so memory is modelled as it
  is: a function from 64-bit addresses to bytes. \<open>unsigned int\<close> tags are four bytes and
  \<open>void *\<close> links eight bytes, both little-endian (x86-64). Block pointers and
  \<open>size_t\<close> values are 64-bit words, tags are 32-bit words, and all arithmetic wraps as
  the machine's does.
\<close>

type_synonym addr = "64 word"
type_synonym size_t = "64 word"
type_synonym uint = "32 word"
type_synonym byte = "8 word"
type_synonym memory = "addr \<Rightarrow> byte"

definition store :: "memory \<Rightarrow> addr \<Rightarrow> byte list \<Rightarrow> memory" where
  "store m p bs = (\<lambda>a. if unat (a - p) < length bs then bs ! unat (a - p) else m a)"

definition load :: "memory \<Rightarrow> addr \<Rightarrow> nat \<Rightarrow> byte list" where
  "load m p n = map (\<lambda>i. m (p + of_nat i)) [0..<n]"

fun le_bytes :: "nat \<Rightarrow> nat \<Rightarrow> byte list" where
  "le_bytes 0 v = []"
| "le_bytes (Suc k) v = of_nat v # le_bytes k (v div 256)"

fun le_val :: "byte list \<Rightarrow> nat" where
  "le_val [] = 0"
| "le_val (b # bs) = unat b + 256 * le_val bs"

text \<open>\<open>GET(p)\<close> is \<open>*(unsigned int *)(p)\<close> and \<open>PUT(p, val)\<close> assigns through the same cast.\<close>

definition GET :: "memory \<Rightarrow> addr \<Rightarrow> uint" where
  "GET m p = of_nat (le_val (load m p 4))"

definition PUT :: "memory \<Rightarrow> addr \<Rightarrow> uint \<Rightarrow> memory" where
  "PUT m p v = store m p (le_bytes 4 (unat v))"

text \<open>Reading and assigning an lvalue \<open>*(void **)(p)\<close>.\<close>

definition GET_PTR :: "memory \<Rightarrow> addr \<Rightarrow> addr" where
  "GET_PTR m p = of_nat (le_val (load m p 8))"

definition PUT_PTR :: "memory \<Rightarrow> addr \<Rightarrow> addr \<Rightarrow> memory" where
  "PUT_PTR m p v = store m p (le_bytes 8 (unat v))"

text \<open>\<open>memset(p, c, n)\<close> and \<open>memcpy(dst, src, n)\<close> of the C library.\<close>

definition memset :: "memory \<Rightarrow> addr \<Rightarrow> byte \<Rightarrow> size_t \<Rightarrow> memory" where
  "memset m p c n = store m p (replicate (unat n) c)"

definition memcpy :: "memory \<Rightarrow> addr \<Rightarrow> addr \<Rightarrow> size_t \<Rightarrow> memory" where
  "memcpy m dst src n = store m dst (load m src (unat n))"

section \<open>Constants and macros of mm.c\<close>

abbreviation WSIZE :: size_t where "WSIZE \<equiv> 4"
abbreviation DSIZE :: size_t where "DSIZE \<equiv> 8"
abbreviation CHUNKSIZE :: size_t where "CHUNKSIZE \<equiv> 4096"

text \<open>The macro \<open>MIN\<close> (minimum block size, 24) and the macro \<open>MAX(x, y)\<close>.\<close>

abbreviation MIN_BLOCK :: size_t where "MIN_BLOCK \<equiv> 24"

definition MAX_of :: "size_t \<Rightarrow> size_t \<Rightarrow> size_t" where
  "MAX_of x y = (if x > y then x else y)"

text \<open>
  \<open>PACK(size, alloc)\<close> is computed at the width of its arguments (\<open>size_t\<close> in every call
  with a variable size) and truncated to \<open>unsigned int\<close> by \<open>PUT\<close>.
\<close>

definition PACK :: "size_t \<Rightarrow> size_t \<Rightarrow> uint" where
  "PACK sz alloc = ucast (sz OR alloc)"

definition GET_SIZE :: "memory \<Rightarrow> addr \<Rightarrow> uint" where
  "GET_SIZE m p = GET m p AND NOT 7"

definition GET_ALLOC :: "memory \<Rightarrow> addr \<Rightarrow> uint" where
  "GET_ALLOC m p = GET m p AND 1"

definition HDRP :: "addr \<Rightarrow> addr" where
  "HDRP bp = bp - WSIZE"

definition FTRP :: "memory \<Rightarrow> addr \<Rightarrow> addr" where
  "FTRP m bp = bp + ucast (GET_SIZE m (HDRP bp)) - DSIZE"

definition NEXT_BLKP :: "memory \<Rightarrow> addr \<Rightarrow> addr" where
  "NEXT_BLKP m bp = bp + ucast (GET_SIZE m (bp - WSIZE))"

definition PREV_BLKP :: "memory \<Rightarrow> addr \<Rightarrow> addr" where
  "PREV_BLKP m bp = bp - ucast (GET_SIZE m (bp - DSIZE))"

text \<open>\<open>ALIGN(size)\<close> at \<open>size_t\<close> (in \<open>extend_heap\<close>) and at \<open>int\<close> (in \<open>mm_checkheap\<close>).\<close>

definition ALIGN :: "size_t \<Rightarrow> size_t" where
  "ALIGN sz = (sz + (8 - 1)) AND NOT 7"

definition ALIGN_int :: "uint \<Rightarrow> uint" where
  "ALIGN_int sz = (sz + (8 - 1)) AND NOT 7"

definition NEXT_FREE_BLOCK :: "memory \<Rightarrow> addr \<Rightarrow> addr" where
  "NEXT_FREE_BLOCK m bp = GET_PTR m (bp + DSIZE)"

definition PREV_FREE_BLOCK :: "memory \<Rightarrow> addr \<Rightarrow> addr" where
  "PREV_FREE_BLOCK m bp = GET_PTR m bp"

text \<open>The two macros used as assignment targets.\<close>

definition set_NEXT_FREE_BLOCK :: "memory \<Rightarrow> addr \<Rightarrow> addr \<Rightarrow> memory" where
  "set_NEXT_FREE_BLOCK m bp v = PUT_PTR m (bp + DSIZE) v"

definition set_PREV_FREE_BLOCK :: "memory \<Rightarrow> addr \<Rightarrow> addr \<Rightarrow> memory" where
  "set_PREV_FREE_BLOCK m bp v = PUT_PTR m bp v"

section \<open>Allocator state and outcomes\<close>

text \<open>
  The globals \<open>heap_listp\<close> and \<open>free_p\<close>, the memory, and the three variables of the heap
  simulator behind \<open>mem_sbrk\<close>. The field \<open>checkheap_runs\<close> is instrumentation: it counts
  the runs of \<open>mm_checkheap\<close>, so that "the validator ran" can be stated.
\<close>

record state =
  mem :: memory
  heap_listp :: addr
  free_p :: addr
  mem_heap :: addr
  mem_brk :: addr
  mem_max_addr :: addr
  checkheap_runs :: nat

text \<open>
  A call either returns, or ends the process (\<open>exit(0)\<close> in \<open>mm_checkheap\<close>, with the
  message printed, or a write through the null pointer), or runs forever (a loop over a
  cyclic free list): \<open>None\<close> is the call that never returns.
\<close>

datatype abort = Exit string | Null_write

type_synonym 'a run = "(abort + 'a) option"

definition return :: "'a \<Rightarrow> 'a run" where
  "return x = Some (Inr x)"

definition bind_run :: "'a run \<Rightarrow> ('a \<Rightarrow> 'b run) \<Rightarrow> 'b run" where
  "bind_run r f = (case r of None \<Rightarrow> None | Some (Inl e) \<Rightarrow> Some (Inl e) | Some (Inr x) \<Rightarrow> f x)"

section \<open>The heap simulator (memlib)\<close>

text \<open>
  Modelled from the spec: \<open>memlib.c\<close> (\<open>mem_sbrk\<close>, \<open>mem_heap_lo\<close>, \<open>mem_heap_hi\<close>,
  \<open>mem_heapsize\<close>) is not among the sources. The spec describes one primitive that grows
  the heap by a number of bytes and returns the base address of the new region, or a
  failure signal when the platform is out of memory; \<open>mm.c\<close> tests that signal as
  \<open>(void *)-1\<close>. The region available is \<open>mem_heap\<close> up to \<open>mem_max_addr\<close>, the break
  is \<open>mem_brk\<close>, and a failed call changes nothing.
\<close>

definition mem_sbrk :: "size_t \<Rightarrow> state \<Rightarrow> addr \<times> state" where
  "mem_sbrk incr s =
     (if unat (mem_brk s) + unat incr \<le> unat (mem_max_addr s)
      then (mem_brk s, s\<lparr>mem_brk := mem_brk s + incr\<rparr>)
      else (- 1, s))"

definition mem_heap_lo :: "state \<Rightarrow> addr" where
  "mem_heap_lo s = mem_heap s"

definition mem_heap_hi :: "state \<Rightarrow> addr" where
  "mem_heap_hi s = mem_brk s - 1"

definition mem_heapsize :: "state \<Rightarrow> size_t" where
  "mem_heapsize s = mem_brk s - mem_heap s"

section \<open>The free list\<close>

definition insert_free_block :: "addr \<Rightarrow> state \<Rightarrow> state" where
  "insert_free_block ptr s =
     (if free_p s = 0
      then (let s1 = s\<lparr>free_p := ptr\<rparr>;
                m1 = set_NEXT_FREE_BLOCK (mem s1) ptr 0;
                m2 = set_PREV_FREE_BLOCK m1 ptr 0
            in s1\<lparr>mem := m2\<rparr>)
      else (let m1 = set_PREV_FREE_BLOCK (mem s) (free_p s) ptr;
                m2 = set_PREV_FREE_BLOCK m1 ptr 0;
                m3 = set_NEXT_FREE_BLOCK m2 ptr (free_p s)
            in s\<lparr>mem := m3, free_p := ptr\<rparr>))"

definition remove_block :: "addr \<Rightarrow> state \<Rightarrow> state" where
  "remove_block bp s =
     (let m = mem s in
      if PREV_FREE_BLOCK m bp \<noteq> 0 \<and> NEXT_FREE_BLOCK m bp \<noteq> 0
      then (let m1 = set_NEXT_FREE_BLOCK m (PREV_FREE_BLOCK m bp) (NEXT_FREE_BLOCK m bp);
                m2 = set_PREV_FREE_BLOCK m1 (NEXT_FREE_BLOCK m1 bp) (PREV_FREE_BLOCK m1 bp)
            in s\<lparr>mem := m2\<rparr>)
      else if PREV_FREE_BLOCK m bp \<noteq> 0 \<and> NEXT_FREE_BLOCK m bp = 0
      then s\<lparr>mem := set_NEXT_FREE_BLOCK m (PREV_FREE_BLOCK m bp) (NEXT_FREE_BLOCK m bp)\<rparr>
      else if PREV_FREE_BLOCK m bp = 0 \<and> NEXT_FREE_BLOCK m bp = 0
      then s\<lparr>free_p := NEXT_FREE_BLOCK m bp\<rparr>
      else if PREV_FREE_BLOCK m bp = 0 \<and> NEXT_FREE_BLOCK m bp \<noteq> 0
      then (let m1 = set_PREV_FREE_BLOCK m (NEXT_FREE_BLOCK m bp) 0
            in s\<lparr>mem := m1, free_p := NEXT_FREE_BLOCK m1 bp\<rparr>)
      else s)"

section \<open>Coalescing\<close>

text \<open>
  Every macro reads the memory as it is at that point of the function, so each \<open>PUT\<close> is
  threaded through: \<open>FTRP(bp)\<close> after \<open>PUT(HDRP(bp), ...)\<close> uses the size just written.
  In case 3 the two sizes are added as \<open>unsigned int\<close> before the sum is widened.
\<close>

definition coalesce :: "addr \<Rightarrow> state \<Rightarrow> addr \<times> state" where
  "coalesce bp s =
     (if free_p s \<noteq> 0
      then (let m = mem s;
                prev_alloc = GET_ALLOC m (FTRP m (PREV_BLKP m bp));
                next_alloc = GET_ALLOC m (HDRP (NEXT_BLKP m bp));
                sz = (ucast (GET_SIZE m (HDRP bp)) :: size_t)
            in if prev_alloc = 0 \<and> next_alloc \<noteq> 0
               then (let sz1 = sz + ucast (GET_SIZE m (HDRP (PREV_BLKP m bp)));
                         bp1 = PREV_BLKP m bp;
                         s1 = remove_block bp1 s;
                         m1 = PUT (mem s1) (HDRP bp1) (PACK sz1 0);
                         m2 = PUT m1 (FTRP m1 bp1) (PACK sz1 0)
                     in (bp1, s1\<lparr>mem := m2\<rparr>))
               else if prev_alloc \<noteq> 0 \<and> next_alloc = 0
               then (let sz1 = sz + ucast (GET_SIZE m (HDRP (NEXT_BLKP m bp)));
                         s1 = remove_block (NEXT_BLKP m bp) s;
                         m1 = PUT (mem s1) (HDRP bp) (PACK sz1 0);
                         m2 = PUT m1 (FTRP m1 bp) (PACK sz1 0)
                     in (bp, s1\<lparr>mem := m2\<rparr>))
               else if prev_alloc = 0 \<and> next_alloc = 0
               then (let sz1 = sz + ucast (GET_SIZE m (HDRP (PREV_BLKP m bp))
                                           + GET_SIZE m (HDRP (NEXT_BLKP m bp)));
                         s1 = remove_block (PREV_BLKP m bp) s;
                         s2 = remove_block (NEXT_BLKP (mem s1) bp) s1;
                         bp1 = PREV_BLKP (mem s2) bp;
                         m1 = PUT (mem s2) (HDRP bp1) (PACK sz1 0);
                         m2 = PUT m1 (FTRP m1 bp1) (PACK sz1 0)
                     in (bp1, s2\<lparr>mem := m2\<rparr>))
               else (bp, s))
      else (bp, s))"

section \<open>Placement and search\<close>

definition place :: "addr \<Rightarrow> size_t \<Rightarrow> state \<Rightarrow> state" where
  "place bp asize s =
     (let csize = (ucast (GET_SIZE (mem s) (HDRP bp)) :: size_t)
      in if csize - asize \<ge> MIN_BLOCK
         then (let m1 = PUT (mem s) (HDRP bp) (PACK asize 1);
                   m2 = PUT m1 (FTRP m1 bp) (PACK asize 1);
                   s1 = remove_block bp (s\<lparr>mem := m2\<rparr>);
                   bp1 = NEXT_BLKP (mem s1) bp;
                   m3 = PUT (mem s1) (HDRP bp1) (PACK (csize - asize) 0);
                   m4 = PUT m3 (FTRP m3 bp1) (PACK (csize - asize) 0);
                   (bp2, s2) = coalesce bp1 (s1\<lparr>mem := m4\<rparr>)
               in insert_free_block bp2 s2)
         else (let m1 = PUT (mem s) (HDRP bp) (PACK csize 1);
                   m2 = PUT m1 (FTRP m1 bp) (PACK csize 1)
               in remove_block bp (s\<lparr>mem := m2\<rparr>)))"

text \<open>
  The loop of \<open>find_fit\<close>, from the block \<open>bp\<close> on. It follows the \<open>next\<close> links until
  \<open>NULL\<close>, so on a cyclic list with no fit it never returns. \<open>NULL\<close> is the result 0.
\<close>

partial_function (option) find_fit_from :: "memory \<Rightarrow> size_t \<Rightarrow> addr \<Rightarrow> addr option" where
  "find_fit_from m asize bp =
     (if bp = 0 then Some 0
      else if asize \<le> ucast (GET_SIZE m (HDRP bp)) then Some bp
      else find_fit_from m asize (NEXT_FREE_BLOCK m bp))"

definition find_fit :: "size_t \<Rightarrow> state \<Rightarrow> addr option" where
  "find_fit asize s = find_fit_from (mem s) asize (free_p s)"

section \<open>The heap checker\<close>

text \<open>
  The two loops of \<open>mm_checkheap\<close>. Each returns \<open>Some None\<close> when it ends without a
  complaint and \<open>Some (Some msg)\<close> when it prints \<open>msg\<close> and calls \<open>exit(0)\<close>. Pointer
  comparisons are unsigned. The messages are given without their final newline.
\<close>

partial_function (option) check_free_list :: "state \<Rightarrow> addr \<Rightarrow> string option option" where
  "check_free_list s bp =
     (if bp = 0 then Some None
      else if NEXT_FREE_BLOCK (mem s) bp \<noteq> 0
              \<and> bp \<noteq> PREV_FREE_BLOCK (mem s) (NEXT_FREE_BLOCK (mem s) bp)
      then Some (Some ''Corrupt prev and next pointers in free list'')
      else if bp < mem_heap_lo s \<or> bp > mem_heap_hi s
      then Some (Some ''A free block is out of bounds'')
      else check_free_list s (NEXT_FREE_BLOCK (mem s) bp))"

partial_function (option) check_blocks :: "state \<Rightarrow> addr \<Rightarrow> string option option" where
  "check_blocks s bp =
     (if \<not> (bp - (WSIZE - 1) > mem_heap_hi s) then Some None
      else if GET_SIZE (mem s) (HDRP bp) \<noteq> GET_SIZE (mem s) (FTRP (mem s) bp)
      then Some (Some ''Header and footer size for a block do not match'')
      else if GET_ALLOC (mem s) (HDRP bp) \<noteq> GET_ALLOC (mem s) (FTRP (mem s) bp)
      then Some (Some ''Allocation for header/footer for a block do not match'')
      else if GET_SIZE (mem s) (HDRP bp) \<noteq> ALIGN_int (GET_SIZE (mem s) (HDRP bp))
      then Some (Some ''Size is not aligned for a block'')
      else check_blocks s (NEXT_BLKP (mem s) bp))"

definition exit_with :: "string \<Rightarrow> 'a run" where
  "exit_with msg = Some (Inl (Exit msg))"

definition lift_check :: "string option option \<Rightarrow> unit run" where
  "lift_check r = (case r of None \<Rightarrow> None | Some None \<Rightarrow> return () | Some (Some msg) \<Rightarrow> exit_with msg)"

definition mm_checkheap :: "state \<Rightarrow> state run" where
  "mm_checkheap s0 =
     (let s = s0\<lparr>checkheap_runs := checkheap_runs s0 + 1\<rparr>; m = mem s in
      if \<not> (mem_heap_lo s + DSIZE = heap_listp s)
      then exit_with ''Heap start is NOT correct''
      else if GET_SIZE m (HDRP (heap_listp s)) \<noteq> 24 \<and> GET_SIZE m (FTRP m (heap_listp s)) \<noteq> 24
      then exit_with ''Prologue size is NOT correct''
      else if GET_ALLOC m (HDRP (heap_listp s)) \<noteq> 1 \<and> GET_ALLOC m (FTRP m (heap_listp s)) \<noteq> 1
      then exit_with ''Prologue alloc NOT set correctly''
      else (let epilogue_block = mem_heap_lo s + (mem_heapsize s - WSIZE) in
        if GET_SIZE m epilogue_block \<noteq> 0
        then exit_with ''Epilogue size is NOT correct''
        else if GET_ALLOC m epilogue_block \<noteq> 1
        then exit_with ''Epilogue alloc is NOT set correctly''
        else if free_p s \<noteq> 0 \<and> PREV_FREE_BLOCK m (free_p s) \<noteq> 0
        then exit_with ''Start of free block list is corrupt''
        else bind_run (lift_check (check_free_list s (free_p s))) (\<lambda>_.
             bind_run (lift_check (check_blocks s (mem_heap_lo s + WSIZE))) (\<lambda>_.
             return s))))"

section \<open>Heap extension and initialisation\<close>

definition extend_heap :: "size_t \<Rightarrow> state \<Rightarrow> (addr \<times> state) run" where
  "extend_heap words s =
     (let sz0 = (if words mod 2 \<noteq> 0 then (words + 1) * WSIZE else words * WSIZE);
          sz = ALIGN sz0;
          (bp, s1) = mem_sbrk sz s
      in if bp = - 1 then return (0, s1)
         else (let m1 = PUT (mem s1) (HDRP bp) (PACK sz 0);
                   m2 = PUT m1 (FTRP m1 bp) (PACK sz 0);
                   m3 = PUT m2 (HDRP (NEXT_BLKP m2 bp)) (PACK 0 1);
                   (bp1, s2) = coalesce bp (s1\<lparr>mem := m3\<rparr>);
                   s3 = insert_free_block bp1 s2
               in bind_run (mm_checkheap s3) (\<lambda>s4. return (bp1, s4))))"

text \<open>
  \<open>mm_init\<close> assigns the result of \<open>mem_sbrk\<close> to \<open>heap_listp\<close> before testing it, so
  after a failed first call \<open>heap_listp\<close> is \<open>(void *)-1\<close>. The build has no \<open>DEBUG\<close>.
\<close>

definition mm_init :: "state \<Rightarrow> (int \<times> state) run" where
  "mm_init s =
     (let (p, s1) = mem_sbrk (8 * WSIZE) s;
          s2 = s1\<lparr>heap_listp := p\<rparr>
      in if p = - 1 then return (- 1, s2)
         else (let m1 = PUT (mem s2) p 0;
                   m2 = PUT m1 (p + 1 * WSIZE) (PACK MIN_BLOCK 1);
                   m3 = PUT m2 (p + 2 * WSIZE) 0;
                   m4 = PUT m3 (p + 4 * WSIZE) 0;
                   m5 = PUT m4 (p + MIN_BLOCK) (PACK MIN_BLOCK 1);
                   m6 = PUT m5 (p + MIN_BLOCK + WSIZE) (PACK 0 1);
                   s3 = s2\<lparr>mem := m6, heap_listp := p + 2 * WSIZE, free_p := 0\<rparr>
               in bind_run (extend_heap (CHUNKSIZE div WSIZE) s3) (\<lambda>(bp, s4).
                    if bp = 0 then return (- 1, s4) else return (0, s4))))"

section \<open>malloc, free, realloc, calloc\<close>

text \<open>The adjusted block size, computed the same way in \<open>malloc\<close> and in \<open>realloc\<close>.\<close>

definition adjusted_size :: "size_t \<Rightarrow> size_t" where
  "adjusted_size sz =
     MAX_of (if sz \<le> DSIZE then 2 * DSIZE
             else DSIZE * ((sz + DSIZE + (DSIZE - 1)) div DSIZE)) MIN_BLOCK"

text \<open>The first statement of \<open>malloc\<close> and of \<open>free\<close>; the result of \<open>mm_init\<close> is ignored.\<close>

definition init_if_unset :: "state \<Rightarrow> state run" where
  "init_if_unset s =
     (if heap_listp s = 0 then bind_run (mm_init s) (\<lambda>(r, s1). return s1) else return s)"

definition malloc :: "size_t \<Rightarrow> state \<Rightarrow> (addr \<times> state) run" where
  "malloc sz s =
     bind_run (init_if_unset s) (\<lambda>s1.
       if sz = 0 then return (0, s1)
       else (let asize = adjusted_size sz in
         case find_fit asize s1 of
           None \<Rightarrow> None
         | Some bp \<Rightarrow>
             if bp \<noteq> 0 then return (bp, place bp asize s1)
             else (let extendsize = MAX_of asize CHUNKSIZE in
               bind_run (extend_heap (extendsize div WSIZE) s1) (\<lambda>(bp1, s2).
                 if bp1 = 0 then return (0, s2)
                 else return (bp1, place bp1 asize s2)))))"

definition free :: "addr \<Rightarrow> state \<Rightarrow> state run" where
  "free bp s =
     (if bp = 0 then return s
      else (let sz = (ucast (GET_SIZE (mem s) (HDRP bp)) :: size_t) in
        bind_run (init_if_unset s) (\<lambda>s1.
          let m1 = PUT (mem s1) (HDRP bp) (PACK sz 0);
              m2 = PUT m1 (FTRP m1 bp) (PACK sz 0);
              (bp1, s2) = coalesce bp (s1\<lparr>mem := m2\<rparr>)
          in return (insert_free_block bp1 s2))))"

definition realloc :: "addr \<Rightarrow> size_t \<Rightarrow> state \<Rightarrow> (addr \<times> state) run" where
  "realloc ptr sz s =
     (let asize = adjusted_size sz in
      if sz = 0 then bind_run (free ptr s) (\<lambda>s1. return (0, s1))
      else if ptr = 0 then malloc sz s
      else (let oldsize = (ucast (GET_SIZE (mem s) (HDRP ptr)) :: size_t) in
        if oldsize = asize then return (ptr, s)
        else bind_run (malloc sz s) (\<lambda>(newptr, s1).
          if newptr = 0 then return (0, s1)
          else (let oldsize1 = (if sz < oldsize then sz else oldsize);
                    s2 = s1\<lparr>mem := memcpy (mem s1) newptr ptr oldsize1\<rparr>
                in bind_run (free ptr s2) (\<lambda>s3. return (newptr, s3))))))"

text \<open>
  \<open>calloc\<close> passes the result of \<open>malloc\<close> to \<open>memset\<close> without testing it. A \<open>memset\<close>
  of at least one byte through \<open>NULL\<close> writes at address 0: undefined in C, a
  segmentation fault on the machines the lab runs on. The model ends the process there.
\<close>

definition calloc :: "size_t \<Rightarrow> size_t \<Rightarrow> state \<Rightarrow> (addr \<times> state) run" where
  "calloc nmemb sz s =
     (let bytes = nmemb * sz in
      bind_run (malloc bytes s) (\<lambda>(newptr, s1).
        if newptr = 0 \<and> bytes \<noteq> 0 then Some (Inl Null_write)
        else return (newptr, s1\<lparr>mem := memset (mem s1) newptr 0 bytes\<rparr>)))"

section \<open>Notions used to state the properties\<close>

text \<open>
  Two byte ranges \<open>[p, p + l)\<close> and \<open>[q, q + n)\<close> that do not meet, stated on the
  difference of the addresses so that it does not matter where in the address space the
  heap lies.
\<close>

definition sep :: "addr \<Rightarrow> nat \<Rightarrow> addr \<Rightarrow> nat \<Rightarrow> bool" where
  "sep p l q n = (l \<le> unat (q - p) \<and> unat (q - p) + n \<le> 2 ^ 64)"

text \<open>
  The free list in head-to-tail order: \<open>free_list m p bs\<close> holds when following the
  \<open>next\<close> links from \<open>p\<close> visits exactly the blocks \<open>bs\<close> and then reaches \<open>NULL\<close>.
\<close>

fun free_list :: "memory \<Rightarrow> addr \<Rightarrow> addr list \<Rightarrow> bool" where
  "free_list m p [] = (p = 0)"
| "free_list m p (b # bs) = (p \<noteq> 0 \<and> p = b \<and> free_list m (NEXT_FREE_BLOCK m b) bs)"



text \<open>Two states that differ at most in the memory and the head of the free list.\<close>

definition same_env :: "state \<Rightarrow> state \<Rightarrow> bool" where
  "same_env s s' = (heap_listp s' = heap_listp s \<and> mem_heap s' = mem_heap s
     \<and> mem_brk s' = mem_brk s \<and> mem_max_addr s' = mem_max_addr s
     \<and> checkheap_runs s' = checkheap_runs s)"





subsection \<open>The chain of blocks\<close>

text \<open>
  The heap as the sequence of its blocks in address order, each described by its size in
  bytes and by whether it is allocated. \<open>total_size bs\<close> is the number of bytes the blocks
  \<open>bs\<close> cover, and \<open>tag b\<close> is the word that the header and the footer of \<open>b\<close> hold.
\<close>

type_synonym blk = "nat \<times> bool"

definition total_size :: "blk list \<Rightarrow> nat" where
  "total_size bs = sum_list (map fst bs)"

definition tag :: "blk \<Rightarrow> uint" where
  "tag b = PACK (of_nat (fst b)) (if snd b then 1 else 0)"

text \<open>
  \<open>blocks_at m B off bs\<close>: in the memory \<open>m\<close> the blocks \<open>bs\<close> lie one after the other,
  the header of the first at \<open>B + off\<close>; each has a size of at least 24 bytes that is a
  multiple of 8, and its header and its footer both hold its tag. \<open>heap_chain m B bs\<close>:
  the blocks \<open>bs\<close> start at \<open>B\<close> (the header of the prologue) and are followed by the
  epilogue header \<open>PACK(0, 1)\<close>; the chain with that header is at most \<open>2 ^ 32\<close> bytes
  long, so that the size of every block, and of every run of blocks, fits in a tag.
\<close>

fun blocks_at :: "memory \<Rightarrow> addr \<Rightarrow> nat \<Rightarrow> blk list \<Rightarrow> bool" where
  "blocks_at m B off [] = True"
| "blocks_at m B off (b # bs) =
     (24 \<le> fst b \<and> 8 dvd fst b
      \<and> GET m (B + of_nat off) = tag b
      \<and> GET m (B + of_nat (off + fst b - 4)) = tag b
      \<and> blocks_at m B (off + fst b) bs)"

definition heap_chain :: "memory \<Rightarrow> addr \<Rightarrow> blk list \<Rightarrow> bool" where
  "heap_chain m B bs =
     (blocks_at m B 0 bs \<and> GET m (B + of_nat (total_size bs)) = PACK 0 1 \<and> total_size bs + 4 \<le> 2 ^ 32)"

text \<open>No two blocks that are neighbours in address order are both free.\<close>

fun no_adjacent_free :: "blk list \<Rightarrow> bool" where
  "no_adjacent_free (b # c # bs) = ((snd b \<or> snd c) \<and> no_adjacent_free (c # bs))"
| "no_adjacent_free bs = True"

text \<open>
  The block pointer of the block whose header is at offset \<open>off\<close>, the offsets of the
  headers of all blocks and of the free blocks, the offsets of all tags, and the
  requirement on the sizes alone.
\<close>

definition blk_ptr :: "addr \<Rightarrow> nat \<Rightarrow> addr" where
  "blk_ptr B off = B + of_nat (off + 4)"

fun blk_offs :: "nat \<Rightarrow> blk list \<Rightarrow> nat set" where
  "blk_offs off [] = {}"
| "blk_offs off (b # bs) = insert off (blk_offs (off + fst b) bs)"

fun free_offs :: "nat \<Rightarrow> blk list \<Rightarrow> nat set" where
  "free_offs off [] = {}"
| "free_offs off (b # bs) = (if snd b then {} else {off}) \<union> free_offs (off + fst b) bs"

fun tag_offs :: "nat \<Rightarrow> blk list \<Rightarrow> nat set" where
  "tag_offs off [] = {}"
| "tag_offs off (b # bs) = {off, off + fst b - 4} \<union> tag_offs (off + fst b) bs"

definition sizes_ok :: "blk list \<Rightarrow> bool" where
  "sizes_ok bs = (\<forall>b \<in> set bs. 24 \<le> fst b \<and> 8 dvd fst b)"

text \<open>
  The free list as far as freeing depends on it. \<open>nodes_apart G\<close>: the link fields (16
  bytes at the block pointer) of different blocks of \<open>G\<close> do not overlap.
  \<open>links_closed F m\<close>: the two links of every block of \<open>F\<close> are \<open>NULL\<close> or point to a block
  of \<open>F\<close>. \<open>tags_kept G m m'\<close>: from \<open>m\<close> to \<open>m'\<close> no word changed that lies outside the
  link fields of the blocks of \<open>G\<close>.
\<close>

definition nodes_apart :: "addr set \<Rightarrow> bool" where
  "nodes_apart G = (\<forall>x \<in> G. \<forall>y \<in> G. x \<noteq> y \<longrightarrow> sep x 16 y 16)"

definition links_closed :: "addr set \<Rightarrow> memory \<Rightarrow> bool" where
  "links_closed F m =
     (\<forall>x \<in> F. PREV_FREE_BLOCK m x \<in> insert 0 F \<and> NEXT_FREE_BLOCK m x \<in> insert 0 F)"

definition tags_kept :: "addr set \<Rightarrow> memory \<Rightarrow> memory \<Rightarrow> bool" where
  "tags_kept G m m' = (\<forall>q. (\<forall>x \<in> G. sep x 16 q 4) \<longrightarrow> GET m' q = GET m q)"

text \<open>
  The state \<open>s\<close> holds a well-formed heap with the blocks \<open>bs\<close>: the chain starts at the
  prologue header \<open>HDRP(heap_listp)\<close>, no two neighbours are free, the head of the free
  list and every link of a free block is \<open>NULL\<close> or a free block, and the free list is
  empty only when no block is free.
\<close>

definition heap_inv :: "state \<Rightarrow> blk list \<Rightarrow> bool" where
  "heap_inv s bs =
     (heap_chain (mem s) (HDRP (heap_listp s)) bs \<and> no_adjacent_free bs
      \<and> links_closed (blk_ptr (HDRP (heap_listp s)) ` free_offs 0 bs) (mem s)
      \<and> free_p s \<in> insert 0 (blk_ptr (HDRP (heap_listp s)) ` free_offs 0 bs)
      \<and> (free_p s = 0 \<longrightarrow> free_offs 0 bs = {}))"

text \<open>
  What \<open>coalesce\<close> returns for the block at offset \<open>off\<close> of size \<open>sz\<close>, as the pair \<open>r\<close>
  of a block pointer and a state: the heap is the chain \<open>xs\<close>, one free block of size
  \<open>n\<close>, \<open>zs\<close>; the pointer is that block, which covers the block given; no two neighbours
  are free; every tag is at an offset where the chain \<open>bs\<close> had one.
\<close>

definition merged :: "addr \<Rightarrow> blk list \<Rightarrow> addr set \<Rightarrow> nat \<Rightarrow> nat \<Rightarrow> addr \<times> state
     \<Rightarrow> blk list \<Rightarrow> nat \<Rightarrow> blk list \<Rightarrow> bool" where
  "merged B bs F off sz r xs n zs =
     (heap_chain (mem (snd r)) B (xs @ (n, False) # zs)
      \<and> no_adjacent_free (xs @ (n, False) # zs)
      \<and> fst r = blk_ptr B (total_size xs)
      \<and> total_size xs \<in> blk_offs 0 bs
      \<and> insert (total_size (xs @ (n, False) # zs)) (tag_offs 0 (xs @ (n, False) # zs))
          \<subseteq> insert (total_size bs) (tag_offs 0 bs)
      \<and> free_p (snd r) \<in> insert 0 F
      \<and> total_size xs \<le> off \<and> off + sz \<le> total_size xs + n
      \<and> total_size (xs @ (n, False) # zs) = total_size bs)"

subsection \<open>Concrete states\<close>

text \<open>
  \<open>boot cap\<close> is the process before the first call: the statics of \<open>mm.c\<close> are zero and
  the heap simulator holds an empty heap at \<open>0x10000\<close> that may grow to \<open>cap\<close> bytes.
\<close>

definition boot :: "size_t \<Rightarrow> state" where
  "boot cap = \<lparr>mem = (\<lambda>_. 0), heap_listp = 0, free_p = 0, mem_heap = 0x10000,
     mem_brk = 0x10000, mem_max_addr = 0x10000 + cap, checkheap_runs = 0\<rparr>"

text \<open>
  \<open>heap_W cap\<close> is the heap after \<open>mm_init\<close>, \<open>p1 = malloc(16)\<close>, \<open>p2 = malloc(100)\<close>,
  \<open>p3 = malloc(16)\<close> and \<open>free(p1)\<close>. In physical order: the prologue at \<open>0x10008\<close>
  (24 bytes, allocated), \<open>p1 = 0x10020\<close> (24, free), \<open>p2 = 0x10038\<close> (112, allocated),
  \<open>p3 = 0x100A8\<close> (24, allocated), the rest of the first chunk at \<open>0x100C0\<close> (3936, free)
  and the epilogue header at \<open>0x1101C\<close>. The free list is \<open>p1\<close>, then \<open>0x100C0\<close>.
\<close>

definition heap_W_mem :: memory where
  "heap_W_mem =
     PUT (PUT (PUT_PTR (PUT_PTR (PUT (PUT (PUT (PUT (PUT (PUT (PUT_PTR (PUT_PTR (PUT (PUT (PUT
       (\<lambda>_. 0)
       0x10004 25) 0x10018 25)
       0x1001C 24) 0x10020 0) 0x10028 0x100C0) 0x10030 24)
       0x10034 113) 0x100A0 113)
       0x100A4 25) 0x100B8 25)
       0x100BC 3936) 0x100C0 0x10020) 0x100C8 0) 0x11018 3936)
       0x1101C 1"

definition heap_W :: "size_t \<Rightarrow> state" where
  "heap_W cap = \<lparr>mem = heap_W_mem, heap_listp = 0x10008, free_p = 0x10020, mem_heap = 0x10000,
     mem_brk = 0x11020, mem_max_addr = 0x10000 + cap, checkheap_runs = 1\<rparr>"

text \<open>
  \<open>heap_W_clobbered cap\<close> is \<open>heap_W cap\<close> after the caller has written four zero
  bytes past the 104 bytes of payload of \<open>p2\<close>, over the footer of its block.
\<close>

definition heap_W_clobbered :: "size_t \<Rightarrow> state" where
  "heap_W_clobbered cap = (heap_W cap)\<lparr>mem := PUT heap_W_mem 0x100A0 0\<rparr>"

subsection \<open>Observations\<close>

text \<open>\<open>after_init f\<close> is an explicit call of \<open>mm_init\<close>, its result ignored, followed by \<open>f\<close>.\<close>

definition after_init :: "(state \<Rightarrow> 'a run) \<Rightarrow> state \<Rightarrow> 'a run" where
  "after_init f s = bind_run (mm_init s) (\<lambda>(r, s1). f s1)"


section \<open>Reading memory after a write\<close>

lemma length_le_bytes [simp]: "length (le_bytes k v) = k"
  by (induction k arbitrary: v) auto

lemma le_val_le_bytes: "le_val (le_bytes k v) = v mod 256 ^ k"
proof (induction k arbitrary: v)
  case 0
  show ?case by simp
next
  case (Suc k)
  have "unat (of_nat v :: byte) = v mod 256"
    by (simp add: unat_of_nat)
  then show ?case
    using Suc [of "v div 256"] by (simp add: mod_mult2_eq)
qed

lemma load_store_same:
  assumes "length bs \<le> 2 ^ 64"
  shows "load (store m p bs) p (length bs) = bs"
proof -
  have "unat ((p + of_nat i) - p) = i" if "i < length bs" for i
    using that assms by (simp add: unat_of_nat)
  then have "load (store m p bs) p (length bs) = map (\<lambda>i. bs ! i) [0..<length bs]"
    by (simp add: load_def store_def)
  then show ?thesis by (simp add: map_nth)
qed

lemma sep_byte:
  assumes "sep p l q n" "j < n"
  shows "l \<le> unat (q + of_nat j - p)"
proof -
  have e: "q + of_nat j - p = (q - p) + of_nat j" by simp
  have "unat ((q - p) + of_nat j) = unat (q - p) + j"
    using assms by (simp add: sep_def unat_word_ariths unat_of_nat)
  then show ?thesis using assms unfolding e sep_def by linarith
qed

lemma load_store_sep:
  assumes "sep p (length bs) q n"
  shows "load (store m p bs) q n = load m q n"
proof -
  have "store m p bs (q + of_nat j) = m (q + of_nat j)" if "j < n" for j
    using sep_byte [OF assms that] by (simp add: store_def)
  then show ?thesis by (simp add: load_def)
qed

lemma GET_PUT_same [simp]: "GET (PUT m p v) p = v"
proof -
  have "load (store m p (le_bytes 4 (unat v))) p (length (le_bytes 4 (unat v))) = le_bytes 4 (unat v)"
    by (rule load_store_same) simp
  then have "GET (PUT m p v) p = of_nat (unat v mod 256 ^ 4)"
    by (simp add: GET_def PUT_def le_val_le_bytes)
  moreover have "unat v < 256 ^ 4" using unsigned_less [of v, where 'a = nat] by simp
  ultimately show ?thesis by simp
qed

lemma GET_PTR_PUT_PTR_same [simp]: "GET_PTR (PUT_PTR m p v) p = v"
proof -
  have "load (store m p (le_bytes 8 (unat v))) p (length (le_bytes 8 (unat v))) = le_bytes 8 (unat v)"
    by (rule load_store_same) simp
  then have "GET_PTR (PUT_PTR m p v) p = of_nat (unat v mod 256 ^ 8)"
    by (simp add: GET_PTR_def PUT_PTR_def le_val_le_bytes)
  moreover have "unat v < 256 ^ 8" using unsigned_less [of v, where 'a = nat] by simp
  ultimately show ?thesis by simp
qed

lemma GET_PUT_sep: "sep p 4 q 4 \<Longrightarrow> GET (PUT m p v) q = GET m q"
  by (simp add: GET_def PUT_def load_store_sep)

lemma GET_PUT_PTR_sep: "sep p 8 q 4 \<Longrightarrow> GET (PUT_PTR m p v) q = GET m q"
  by (simp add: GET_def PUT_PTR_def load_store_sep)

lemma GET_PTR_PUT_sep: "sep p 4 q 8 \<Longrightarrow> GET_PTR (PUT m p v) q = GET_PTR m q"
  by (simp add: GET_PTR_def PUT_def load_store_sep)

lemma GET_PTR_PUT_PTR_sep: "sep p 8 q 8 \<Longrightarrow> GET_PTR (PUT_PTR m p v) q = GET_PTR m q"
  by (simp add: GET_PTR_def PUT_PTR_def load_store_sep)

lemma sep_offsets:
  assumes "a + l \<le> b \<or> b + n \<le> a" "0 < n" "a < 2 ^ 63" "b < 2 ^ 63" "l < 2 ^ 63" "n < 2 ^ 63"
  shows "sep (B + of_nat a) l (B + of_nat b) n"
proof -
  have d: "(B + of_nat b) - (B + of_nat a) = (of_nat b :: addr) - of_nat a" by simp
  show ?thesis
  proof (cases "a \<le> b")
    case True
    then have "(of_nat b :: addr) - of_nat a = of_nat (b - a)" by simp
    moreover have "unat (of_nat (b - a) :: addr) = b - a"
      using assms by (simp add: unat_of_nat)
    ultimately show ?thesis using assms True unfolding sep_def d by auto
  next
    case False
    then have "(of_nat b :: addr) - of_nat a = 0 - of_nat (a - b)" by simp
    moreover have "unat (0 - (of_nat (a - b) :: addr)) = 2 ^ 64 - (a - b)"
      using assms False by (simp add: unat_sub_if_size unat_of_nat word_size)
    ultimately show ?thesis using assms False unfolding sep_def d by auto
  qed
qed


section \<open>Tags and sizes\<close>

lemma and_7_mod_32: "(w :: 32 word) AND 7 = w mod 8"
  using word_mod_2p_is_mask [of 3 w] by (simp add: mask_eq_exp_minus_1)

lemma and_7_mod_64: "(w :: 64 word) AND 7 = w mod 8"
  using word_mod_2p_is_mask [of 3 w] by (simp add: mask_eq_exp_minus_1)

lemma and_not_7: "(w :: 'a::len word) AND NOT 7 = w - (w AND 7)"
proof -
  have "w - (w AND 7) = w AND NOT (w AND 7)"
    by (rule disjunctive_diff) (simp add: bit_and_iff)
  also have "\<dots> = w AND NOT 7"
    by (auto simp: bit_eq_iff bit_simps)
  finally show ?thesis by simp
qed

lemma unat_and_not_7_32: "unat ((w :: 32 word) AND NOT 7) = unat w - unat w mod 8"
proof -
  have "w AND 7 \<le> w" by (simp add: word_and_le2)
  then have "unat (w - (w AND 7)) = unat w - unat (w AND 7)" by (rule unat_sub)
  then show ?thesis
    unfolding and_not_7 by (simp add: and_7_mod_32 unat_mod_distrib)
qed

lemma unat_and_not_7_64: "unat ((w :: 64 word) AND NOT 7) = unat w - unat w mod 8"
proof -
  have "w AND 7 \<le> w" by (simp add: word_and_le2)
  then have "unat (w - (w AND 7)) = unat w - unat (w AND 7)" by (rule unat_sub)
  then show ?thesis
    unfolding and_not_7 by (simp add: and_7_mod_64 unat_mod_distrib)
qed

lemma unat_and_1_32: "unat ((w :: 32 word) AND 1) = unat w mod 2"
  by (simp add: and_one_eq unat_mod_distrib)

lemma unat_lt_64: "unat (w :: 64 word) < 18446744073709551616"
  using unsigned_less [of w, where 'a = nat] by simp

lemma unat_lt_32: "unat (w :: 32 word) < 4294967296"
  using unsigned_less [of w, where 'a = nat] by simp

lemma unat_ucast_32_64: "unat (ucast (w :: 32 word) :: 64 word) = unat w"
  using unat_lt_32 [of w] by (simp add: unsigned_ucast_eq take_bit_eq_mod)

lemma unat_plus_nat:
  assumes "unat (w :: 64 word) + k < 2 ^ 64"
  shows "unat (w + of_nat k) = unat w + k"
proof -
  have "unat (of_nat k :: 64 word) = k" using assms by (simp add: unat_of_nat)
  then show ?thesis using assms unat_add_lem [of w "of_nat k"] by simp
qed


lemma dvd8_adjusted_size: "8 dvd unat (adjusted_size sz)"
proof -
  have "8 dvd unat (8 * y :: 64 word)" for y
  proof -
    have "unat (8 * y) = (8 * unat y) mod 2 ^ 64" by (simp add: unat_word_ariths)
    moreover have "(8::nat) dvd 2 ^ 64" by simp
    ultimately show ?thesis by (simp add: dvd_mod_iff)
  qed
  then show ?thesis by (auto simp: adjusted_size_def MAX_of_def)
qed




lemma init_if_unset_set [simp]: "heap_listp s \<noteq> 0 \<Longrightarrow> init_if_unset s = return s"
  by (simp add: init_if_unset_def)

lemma bind_return [simp]: "bind_run (return x) f = f x"
  by (simp add: bind_run_def return_def)

lemma env_refl: "same_env s s"
  by (simp add: same_env_def)

lemma env_mem: "same_env s t \<Longrightarrow> same_env s (t\<lparr>mem := m\<rparr>)"
  by (simp add: same_env_def)

lemma env_remove: "same_env s t \<Longrightarrow> same_env s (remove_block bp t)"
  by (simp add: same_env_def remove_block_def Let_def)

lemma env_insert: "same_env s t \<Longrightarrow> same_env s (insert_free_block bp t)"
  by (simp add: same_env_def insert_free_block_def Let_def)

lemma env_coalesce: "same_env s t \<Longrightarrow> same_env s (snd (coalesce bp t))"
  by (simp add: coalesce_def Let_def env_mem env_remove)

lemma env_place: "same_env s t \<Longrightarrow> same_env s (place bp asize t)"
  by (simp add: place_def Let_def split_beta env_mem env_remove env_insert env_coalesce)

lemma exit_not_return [simp]: "exit_with msg \<noteq> Some (Inr y)"
  by (simp add: exit_with_def)

lemma two_checks_return:
  assumes "bind_run a (\<lambda>_. bind_run b (\<lambda>_. return x)) = Some (Inr y)"
  shows "y = x"
  using assms by (auto simp: bind_run_def return_def split: option.splits sum.splits)

lemma mm_checkheap_returns:
  assumes "mm_checkheap s = Some (Inr s')"
  shows "s' = s\<lparr>checkheap_runs := checkheap_runs s + 1\<rparr>"
  using assms unfolding mm_checkheap_def Let_def
  apply (simp split: if_splits)
  apply (drule two_checks_return)
  apply simp
  done

lemma bind_run_returns:
  "bind_run r f = Some (Inr y) \<Longrightarrow> \<exists>x. r = Some (Inr x) \<and> f x = Some (Inr y)"
  by (auto simp: bind_run_def split: option.splits sum.splits)

lemma extend_heap_tail:
  assumes "bind_run (mm_checkheap (insert_free_block (fst (coalesce p t)) (snd (coalesce p t))))
             (\<lambda>s4. return (fst (coalesce p t), s4)) = Some (Inr (bp, s'))"
  shows "heap_listp s' = heap_listp t \<and> mem_heap s' = mem_heap t \<and> mem_brk s' = mem_brk t
     \<and> mem_max_addr s' = mem_max_addr t \<and> checkheap_runs s' = checkheap_runs t + 1"
proof -
  define s3 where "s3 = insert_free_block (fst (coalesce p t)) (snd (coalesce p t))"
  have c: "same_env t s3"
    unfolding s3_def by (intro env_insert env_coalesce env_refl)
  from bind_run_returns [OF assms(1)] obtain s4 where "mm_checkheap s3 = Some (Inr s4)" "s' = s4"
    by (auto simp: return_def s3_def)
  then show ?thesis
    using c mm_checkheap_returns [of s3 s'] by (simp add: same_env_def)
qed

lemma extend_heap_returns:
  assumes "extend_heap w s = Some (Inr (bp, s'))"
  shows "heap_listp s' = heap_listp s \<and> mem_heap s' = mem_heap s
     \<and> mem_max_addr s' = mem_max_addr s
     \<and> (bp \<noteq> 0 \<longrightarrow> checkheap_runs s' = checkheap_runs s + 1)"
proof -
  define sz where "sz = ALIGN (if w mod 2 \<noteq> 0 then (w + 1) * WSIZE else w * WSIZE)"
  obtain p s1 where sb: "mem_sbrk sz s = (p, s1)" by (cases "mem_sbrk sz s")
  have env1: "heap_listp s1 = heap_listp s \<and> mem_heap s1 = mem_heap s
     \<and> mem_max_addr s1 = mem_max_addr s \<and> checkheap_runs s1 = checkheap_runs s"
    using sb by (auto simp: mem_sbrk_def split: if_splits)
  note eh = assms [unfolded extend_heap_def Let_def, folded sz_def, unfolded sb prod.case]
  show ?thesis
  proof (cases "p = - 1")
    case True
    with eh env1 show ?thesis by (simp add: return_def)
  next
    case False
    with eh env1 show ?thesis
      apply (simp add: split_beta)
      apply (drule extend_heap_tail)
      apply simp
      done
  qed
qed

lemma mm_init_tail:
  assumes "bind_run (extend_heap w t)
      (\<lambda>(bp, s4). if bp = 0 then return (- 1, s4) else return (0 :: int, s4)) = Some (Inr (r, s'))"
  shows "heap_listp s' = heap_listp t"
proof -
  from bind_run_returns [OF assms] obtain bp where "extend_heap w t = Some (Inr (bp, s'))"
    by (auto simp: return_def split: if_splits)
  then show ?thesis using extend_heap_returns by blast
qed

lemma mm_init_sets_heap_listp:
  assumes "mm_init s = Some (Inr (r, s'))"
  shows "heap_listp s' \<noteq> 0"
proof (cases "unat (mem_brk s) + unat (8 * WSIZE) \<le> unat (mem_max_addr s)")
  case False
  with assms show ?thesis
    by (auto simp: mm_init_def mem_sbrk_def Let_def return_def)
next
  case True
  then have lt: "unat (mem_brk s) + 32 < 2 ^ 64"
    using unat_lt_64 [of "mem_max_addr s"] by simp
  have "unat (mem_brk s + of_nat 8) = unat (mem_brk s) + 8"
    using lt by (intro unat_plus_nat) simp
  then have nz: "mem_brk s + 8 \<noteq> 0" by (auto simp: word_unat_eq_iff)
  have "unat (- 1 :: 64 word) = 2 ^ 64 - 1"
    by (simp add: unsigned_minus_1_eq_mask mask_eq_exp_minus_1)
  with lt have nm: "mem_brk s \<noteq> - 1" by auto
  have sb: "mem_sbrk (8 * WSIZE) s = (mem_brk s, s\<lparr>mem_brk := mem_brk s + 8 * WSIZE\<rparr>)"
    using True by (simp add: mem_sbrk_def)
  note mi = assms [unfolded mm_init_def Let_def sb prod.case]
  from mi nm nz show ?thesis
    apply simp
    apply (drule mm_init_tail)
    apply simp
    done
qed

section \<open>C3: placement\<close>

subsection \<open>Disjoint ranges\<close>

lemma sep_sub:
  assumes "sep p l q n" "a + l' \<le> l" "b + n' \<le> n" "0 < n'"
  shows "sep (p + of_nat a) l' (q + of_nat b) n'"
proof -
  define d where "d = unat (q - p)"
  define e where "e = q - p + of_nat b"
  have dl: "l \<le> d" "d + n \<le> 2 ^ 64" using assms(1) by (auto simp: sep_def d_def)
  have dlt: "d < 2 ^ 64" using dl assms(3,4) by simp
  have df: "(q + of_nat b) - (p + of_nat a) = e - of_nat a" by (simp add: e_def)
  have ue: "unat e = d + b"
    unfolding d_def e_def using dl assms(3,4) by (intro unat_plus_nat) (simp add: d_def)
  have ua: "unat (of_nat a :: addr) = a"
    using dl dlt assms(2) by (simp add: unat_of_nat)
  have "a \<le> d + b" using dl assms(2) by simp
  then have u: "unat (e - of_nat a) = d + b - a"
    using unat_sub_if_size [of e "of_nat a"] ue ua by simp
  have "l' \<le> d + b - a" and "d + b - a + n' \<le> 2 ^ 64"
    using dl assms(2-4) by linarith+
  then show ?thesis unfolding sep_def df u by simp
qed

lemma sep_sub0:
  assumes "sep p l q n" "l' \<le> l" "n' \<le> n" "0 < n'"
  shows "sep p l' q n'"
  using sep_sub [OF assms(1), of 0 l' 0 n'] assms by simp





lemma sep_self_8_8: "sep y 8 (y + 8) 8" "sep (y + 8) 8 y 8"
proof -
  have "unat (y + 8 - y) = 8" by simp
  then show "sep y 8 (y + 8) 8" by (simp add: sep_def)
  have "y - (y + 8) = - 8" by simp
  then have "unat (y - (y + 8)) = 2 ^ 64 - 8" by simp
  then show "sep (y + 8) 8 y 8" by (simp add: sep_def)
qed

lemma apart_fields:
  assumes "sep y 16 x 16"
  shows "sep (y + 8) 8 (x + 8) 8" "sep (y + 8) 8 x 8" "sep y 8 (x + 8) 8" "sep y 8 x 8"
  using sep_sub [OF assms, of 8 8 8 8] sep_sub [OF assms, of 8 8 0 8]
    sep_sub [OF assms, of 0 8 8 8] sep_sub [OF assms, of 0 8 0 8]
  by simp_all

lemma NEXT_set_NEXT:
  assumes "x = y \<or> sep y 16 x 16"
  shows "NEXT_FREE_BLOCK (set_NEXT_FREE_BLOCK m y v) x = (if x = y then v else NEXT_FREE_BLOCK m x)"
  using assms apart_fields(1) [of y x]
  by (auto simp: NEXT_FREE_BLOCK_def set_NEXT_FREE_BLOCK_def GET_PTR_PUT_PTR_sep)

lemma PREV_set_NEXT:
  assumes "x = y \<or> sep y 16 x 16"
  shows "PREV_FREE_BLOCK (set_NEXT_FREE_BLOCK m y v) x = PREV_FREE_BLOCK m x"
  using assms apart_fields(2) [of y x] sep_self_8_8(2) [of y]
  by (auto simp: PREV_FREE_BLOCK_def set_NEXT_FREE_BLOCK_def GET_PTR_PUT_PTR_sep)

lemma PREV_set_PREV:
  assumes "x = y \<or> sep y 16 x 16"
  shows "PREV_FREE_BLOCK (set_PREV_FREE_BLOCK m y v) x = (if x = y then v else PREV_FREE_BLOCK m x)"
  using assms apart_fields(4) [of y x]
  by (auto simp: PREV_FREE_BLOCK_def set_PREV_FREE_BLOCK_def GET_PTR_PUT_PTR_sep)

lemma NEXT_set_PREV:
  assumes "x = y \<or> sep y 16 x 16"
  shows "NEXT_FREE_BLOCK (set_PREV_FREE_BLOCK m y v) x = NEXT_FREE_BLOCK m x"
  using assms apart_fields(3) [of y x] sep_self_8_8(1) [of y]
  by (auto simp: NEXT_FREE_BLOCK_def set_PREV_FREE_BLOCK_def GET_PTR_PUT_PTR_sep)

lemma same_node_fields [simp]:
  "NEXT_FREE_BLOCK (set_NEXT_FREE_BLOCK m y v) y = v"
  "PREV_FREE_BLOCK (set_NEXT_FREE_BLOCK m y v) y = PREV_FREE_BLOCK m y"
  "PREV_FREE_BLOCK (set_PREV_FREE_BLOCK m y v) y = v"
  "NEXT_FREE_BLOCK (set_PREV_FREE_BLOCK m y v) y = NEXT_FREE_BLOCK m y"
  by (simp_all add: NEXT_set_NEXT PREV_set_NEXT PREV_set_PREV NEXT_set_PREV)

lemma GET_set_NEXT:
  assumes "sep y 16 q 4"
  shows "GET (set_NEXT_FREE_BLOCK m y v) q = GET m q"
  using sep_sub [OF assms, of 8 8 0 4]
  by (simp add: set_NEXT_FREE_BLOCK_def GET_PUT_PTR_sep)

lemma GET_set_PREV:
  assumes "sep y 16 q 4"
  shows "GET (set_PREV_FREE_BLOCK m y v) q = GET m q"
  using sep_sub [OF assms, of 0 8 0 4]
  by (simp add: set_PREV_FREE_BLOCK_def GET_PUT_PTR_sep)





lemma unat_or_flag:
  assumes "f \<le> 1" "8 dvd unat (w :: 64 word)"
  shows "unat (w OR f) = unat w + unat f"
proof -
  have f: "f = 0 \<or> f = 1" using assms(1) by (auto simp: word_le_nat_alt word_unat_eq_iff)
  have "unat (w AND 7) = 0" using assms(2) by (simp add: and_7_mod_64 unat_mod_distrib)
  then have w7: "w AND 7 = 0" by (simp add: unat_eq_zero)
  have "w AND 1 = (w AND 7) AND 1" by (simp add: and.assoc)
  then have "w AND 1 = 0" using w7 by simp
  then have "w AND f = 0" using f by auto
  then have e: "w + f = w OR f" by (simp add: disjunctive_add_eq_or)
  have "unat w \<le> 2 ^ 64 - 8"
    using unat_lt_64 [of w] assms(2) by (elim dvdE) simp
  then have "unat w + unat f < 2 ^ 64" using f by auto
  then have "unat (w + f) = unat w + unat f"
    using unat_add_lem [of w f] by simp
  then show ?thesis using e by simp
qed

lemma unat_PACK:
  assumes "unat sz < 2 ^ 32" "8 dvd unat sz" "f \<le> 1"
  shows "unat (PACK sz f) = unat sz + unat f"
proof -
  have f: "unat f \<le> 1" using assms(3) by (simp add: word_le_nat_alt)
  have "unat sz \<le> 2 ^ 32 - 8" using assms(1,2) by (elim dvdE) simp
  then have "unat sz + unat f < 2 ^ 32" using f by simp
  then show ?thesis
    by (simp add: PACK_def unsigned_ucast_eq take_bit_eq_mod unat_or_flag [OF assms(3,2)])
qed

lemma size_PACK:
  assumes "unat sz < 2 ^ 32" "8 dvd unat sz" "f \<le> 1"
  shows "ucast (PACK sz f AND NOT 7) = sz"
proof -
  have f: "unat f \<le> 1" using assms(3) by (simp add: word_le_nat_alt)
  obtain k where k: "unat sz = 8 * k" using assms(2) by (elim dvdE)
  have "(8 * k + unat f) mod 8 = unat f" using f by simp
  then have "unat (PACK sz f AND NOT 7) = unat sz"
    unfolding unat_and_not_7_32 unat_PACK [OF assms] k by simp
  then have "unat (ucast (PACK sz f AND NOT 7) :: size_t) = unat sz"
    by (simp only: unat_ucast_32_64)
  then show ?thesis by (simp only: word_unat_eq_iff)
qed

lemma alloc_PACK:
  assumes "unat sz < 2 ^ 32" "8 dvd unat sz" "f \<le> 1"
  shows "unat (PACK sz f AND 1) = unat f"
proof -
  have f: "unat f \<le> 1" using assms(3) by (simp add: word_le_nat_alt)
  obtain k where k: "unat sz = 8 * k" using assms(2) by (elim dvdE)
  have "(8 * k + unat f) mod 2 = unat f" using f by presburger
  then show ?thesis
    unfolding unat_and_1_32 unat_PACK [OF assms] k by simp
qed




lemma fields_PUT:
  assumes "sep p 4 x 16"
  shows "PREV_FREE_BLOCK (PUT m p v) x = PREV_FREE_BLOCK m x"
    and "NEXT_FREE_BLOCK (PUT m p v) x = NEXT_FREE_BLOCK m x"
  using sep_sub [OF assms, of 0 4 0 8] sep_sub [OF assms, of 0 4 8 8]
  by (simp_all add: PREV_FREE_BLOCK_def NEXT_FREE_BLOCK_def GET_PTR_PUT_sep)











section \<open>C2: freeing and coalescing\<close>

subsection \<open>Offsets of blocks and tags\<close>

lemma total_size_simps [simp]: "total_size [] = 0" "total_size (b # bs) = fst b + total_size bs"
  "total_size (xs @ ys) = total_size xs + total_size ys"
  by (simp_all add: total_size_def)

lemma sizes_ok_simps [simp]: "sizes_ok []" "sizes_ok (b # bs) = (24 \<le> fst b \<and> 8 dvd fst b \<and> sizes_ok bs)"
  "sizes_ok (xs @ ys) = (sizes_ok xs \<and> sizes_ok ys)"
  by (auto simp: sizes_ok_def)

lemma blocks_at_sizes: "blocks_at m B off bs \<Longrightarrow> sizes_ok bs"
  by (induction bs arbitrary: off) auto

lemma blocks_at_append:
  "blocks_at m B off (xs @ ys) = (blocks_at m B off xs \<and> blocks_at m B (off + total_size xs) ys)"
  by (induction xs arbitrary: off) (auto simp: add.assoc)

lemma blk_offs_range:
  "sizes_ok bs \<Longrightarrow> o' \<in> blk_offs off bs \<Longrightarrow> off \<le> o' \<and> o' + 24 \<le> off + total_size bs"
proof (induction bs arbitrary: off)
  case Nil
  then show ?case by simp
next
  case (Cons b bs)
  then show ?case by (fastforce simp: add.assoc)
qed

lemma tag_offs_range:
  "sizes_ok bs \<Longrightarrow> t \<in> tag_offs off bs \<Longrightarrow> off \<le> t \<and> t + 4 \<le> off + total_size bs"
proof (induction bs arbitrary: off)
  case Nil
  then show ?case by simp
next
  case (Cons b bs)
  then show ?case by (fastforce simp: add.assoc)
qed

lemma free_offs_blk: "free_offs off bs \<subseteq> blk_offs off bs"
  by (induction bs arbitrary: off) auto

lemma blk_offs_append:
  "blk_offs off (xs @ ys) = blk_offs off xs \<union> blk_offs (off + total_size xs) ys"
  by (induction xs arbitrary: off) (auto simp: add.assoc)

lemma free_offs_append:
  "free_offs off (xs @ ys) = free_offs off xs \<union> free_offs (off + total_size xs) ys"
  by (induction xs arbitrary: off) (auto simp: add.assoc)

lemma tag_offs_append:
  "tag_offs off (xs @ ys) = tag_offs off xs \<union> tag_offs (off + total_size xs) ys"
  by (induction xs arbitrary: off) (auto simp: add.assoc)

text \<open>The fields of a block do not meet any tag of the chain, nor the epilogue header.\<close>

lemma fields_off_tags:
  assumes "sizes_ok bs" "o' \<in> blk_offs off bs" "t \<in> tag_offs off bs \<or> t = off + total_size bs"
  shows "t \<le> o' \<or> o' + 20 \<le> t"
  using assms
proof (induction bs arbitrary: off)
  case Nil
  then show ?case by simp
next
  case (Cons b bs)
  have sz: "24 \<le> fst b" and ok: "sizes_ok bs" using Cons.prems(1) by auto
  show ?case
  proof (cases "o' = off")
    case True
    have "t = off \<or> t = off + fst b - 4 \<or> off + fst b \<le> t"
      using Cons.prems(3) tag_offs_range [OF ok, of t "off + fst b"] by auto
    then show ?thesis using True sz by auto
  next
    case False
    then have o: "o' \<in> blk_offs (off + fst b) bs" using Cons.prems(2) by simp
    then have ge: "off + fst b \<le> o'" using blk_offs_range [OF ok] by blast
    show ?thesis
    proof (cases "t = off \<or> t = off + fst b - 4")
      case True
      then show ?thesis using ge sz by auto
    next
      case False
      then have "t \<in> tag_offs (off + fst b) bs \<or> t = off + fst b + total_size bs"
        using Cons.prems(3) by (auto simp: add.assoc)
      then show ?thesis using Cons.IH [OF ok o] by simp
    qed
  qed
qed

lemma blocks_apart:
  assumes "sizes_ok bs" "o1 \<in> blk_offs off bs" "o2 \<in> blk_offs off bs" "o1 \<noteq> o2"
  shows "o1 + 24 \<le> o2 \<or> o2 + 24 \<le> o1"
  using assms
proof (induction bs arbitrary: off)
  case Nil
  then show ?case by simp
next
  case (Cons b bs)
  have sz: "24 \<le> fst b" and ok: "sizes_ok bs" using Cons.prems(1) by auto
  show ?case
  proof (cases "o1 = off"; cases "o2 = off")
    assume "o1 = off" "o2 = off"
    then show ?thesis using Cons.prems(4) by simp
  next
    assume a: "o1 = off" "o2 \<noteq> off"
    then have "o2 \<in> blk_offs (off + fst b) bs" using Cons.prems(3) by simp
    then show ?thesis using blk_offs_range [OF ok] a sz by fastforce
  next
    assume a: "o1 \<noteq> off" "o2 = off"
    then have "o1 \<in> blk_offs (off + fst b) bs" using Cons.prems(2) by simp
    then show ?thesis using blk_offs_range [OF ok] a sz by fastforce
  next
    assume a: "o1 \<noteq> off" "o2 \<noteq> off"
    then show ?thesis using Cons.IH [OF ok _ _ Cons.prems(4)] Cons.prems(2,3) by simp
  qed
qed

lemma blocks_at_frame:
  assumes "blocks_at m B off bs"
    and "\<forall>t \<in> tag_offs off bs. GET m' (B + of_nat t) = GET m (B + of_nat t)"
  shows "blocks_at m' B off bs"
  using assms by (induction bs arbitrary: off) auto

subsection \<open>Writes to the links\<close>

lemma kept_refl: "tags_kept G m m"
  by (simp add: tags_kept_def)

lemma kept_trans: "tags_kept G m m1 \<Longrightarrow> tags_kept G m1 m2 \<Longrightarrow> tags_kept G m m2"
  by (simp add: tags_kept_def)

lemma kept_mono: "tags_kept F m m' \<Longrightarrow> F \<subseteq> G \<Longrightarrow> tags_kept G m m'"
  by (auto simp: tags_kept_def)

lemma kept_set_NEXT: "y \<in> G \<Longrightarrow> tags_kept G m (set_NEXT_FREE_BLOCK m y v)"
  by (simp add: tags_kept_def GET_set_NEXT)

lemma kept_set_PREV: "y \<in> G \<Longrightarrow> tags_kept G m (set_PREV_FREE_BLOCK m y v)"
  by (simp add: tags_kept_def GET_set_PREV)

lemma closed_set_NEXT:
  assumes "links_closed F m" "nodes_apart F" "y \<in> F" "v \<in> insert 0 F"
  shows "links_closed F (set_NEXT_FREE_BLOCK m y v)"
  unfolding links_closed_def
proof
  fix x assume x: "x \<in> F"
  have d: "x = y \<or> sep y 16 x 16" using assms(2,3) x by (auto simp: nodes_apart_def)
  show "PREV_FREE_BLOCK (set_NEXT_FREE_BLOCK m y v) x \<in> insert 0 F
      \<and> NEXT_FREE_BLOCK (set_NEXT_FREE_BLOCK m y v) x \<in> insert 0 F"
    unfolding NEXT_set_NEXT [OF d] PREV_set_NEXT [OF d]
    using assms(1,4) x by (simp add: links_closed_def)
qed

lemma closed_set_PREV:
  assumes "links_closed F m" "nodes_apart F" "y \<in> F" "v \<in> insert 0 F"
  shows "links_closed F (set_PREV_FREE_BLOCK m y v)"
  unfolding links_closed_def
proof
  fix x assume x: "x \<in> F"
  have d: "x = y \<or> sep y 16 x 16" using assms(2,3) x by (auto simp: nodes_apart_def)
  show "PREV_FREE_BLOCK (set_PREV_FREE_BLOCK m y v) x \<in> insert 0 F
      \<and> NEXT_FREE_BLOCK (set_PREV_FREE_BLOCK m y v) x \<in> insert 0 F"
    unfolding NEXT_set_PREV [OF d] PREV_set_PREV [OF d]
    using assms(1,4) x by (simp add: links_closed_def)
qed

lemma closed_PUT:
  assumes "links_closed F m" "\<forall>x \<in> F. sep p 4 x 16"
  shows "links_closed F (PUT m p v)"
  using assms by (simp add: links_closed_def fields_PUT)

lemma remove_block_closed:
  assumes cl: "links_closed F (mem s)" and ap: "nodes_apart F"
    and fp: "free_p s \<in> insert 0 F" and x: "x \<in> F"
  shows "links_closed F (mem (remove_block x s))"
    and "free_p (remove_block x s) \<in> insert 0 F"
    and "tags_kept F (mem s) (mem (remove_block x s))"
proof -
  define m where "m = mem s"
  define P where "P = PREV_FREE_BLOCK m x"
  define N where "N = NEXT_FREE_BLOCK m x"
  have c: "links_closed F m" using cl by (simp add: m_def)
  have P: "P \<in> insert 0 F" and N: "N \<in> insert 0 F"
    using c x by (simp_all add: links_closed_def P_def N_def)
  have 0: "(0 :: addr) \<in> insert 0 F" by simp
  have rb: "remove_block x s =
     (if P \<noteq> 0 \<and> N \<noteq> 0
      then s\<lparr>mem := set_PREV_FREE_BLOCK (set_NEXT_FREE_BLOCK m P N)
                      (NEXT_FREE_BLOCK (set_NEXT_FREE_BLOCK m P N) x)
                      (PREV_FREE_BLOCK (set_NEXT_FREE_BLOCK m P N) x)\<rparr>
      else if P \<noteq> 0 \<and> N = 0 then s\<lparr>mem := set_NEXT_FREE_BLOCK m P N\<rparr>
      else if P = 0 \<and> N = 0 then s\<lparr>free_p := N\<rparr>
      else if P = 0 \<and> N \<noteq> 0
      then s\<lparr>mem := set_PREV_FREE_BLOCK m N 0,
             free_p := NEXT_FREE_BLOCK (set_PREV_FREE_BLOCK m N 0) x\<rparr>
      else s)"
    by (simp add: remove_block_def Let_def m_def P_def N_def)
  consider (a) "P \<noteq> 0" "N \<noteq> 0" | (b) "P \<noteq> 0" "N = 0" | (c) "P = 0" "N = 0" | (d) "P = 0" "N \<noteq> 0"
    by blast
  then have "links_closed F (mem (remove_block x s))
      \<and> free_p (remove_block x s) \<in> insert 0 F
      \<and> tags_kept F (mem s) (mem (remove_block x s))"
  proof cases
    case a
    then have PF: "P \<in> F" and NF: "N \<in> F" using P N by auto
    define m1 where "m1 = set_NEXT_FREE_BLOCK m P N"
    have c1: "links_closed F m1" unfolding m1_def by (rule closed_set_NEXT [OF c ap PF N])
    have v1: "NEXT_FREE_BLOCK m1 x \<in> insert 0 F" "PREV_FREE_BLOCK m1 x \<in> insert 0 F"
      using c1 x by (simp_all add: links_closed_def)
    have dx: "x = P \<or> sep P 16 x 16" using ap PF x by (auto simp: nodes_apart_def)
    have n1: "NEXT_FREE_BLOCK m1 x = N"
      unfolding m1_def NEXT_set_NEXT [OF dx] by (simp add: N_def)
    have c2: "links_closed F (set_PREV_FREE_BLOCK m1 (NEXT_FREE_BLOCK m1 x) (PREV_FREE_BLOCK m1 x))"
      unfolding n1 using v1(2) by (intro closed_set_PREV [OF c1 ap NF])
    have k: "tags_kept F m (set_PREV_FREE_BLOCK m1 (NEXT_FREE_BLOCK m1 x) (PREV_FREE_BLOCK m1 x))"
      unfolding n1 unfolding m1_def
      by (rule kept_trans [OF kept_set_NEXT [OF PF] kept_set_PREV [OF NF]])
    show ?thesis using a c2 k fp unfolding rb m1_def by (simp add: m_def)
  next
    case b
    then have PF: "P \<in> F" using P by auto
    show ?thesis using b closed_set_NEXT [OF c ap PF N] kept_set_NEXT [OF PF, of m N] fp
      unfolding rb by (simp add: m_def)
  next
    case c
    show ?thesis using c cl unfolding rb by (simp add: kept_refl)
  next
    case d
    then have NF: "N \<in> F" using N by auto
    define m1 where "m1 = set_PREV_FREE_BLOCK m N 0"
    have c1: "links_closed F m1" unfolding m1_def by (rule closed_set_PREV [OF c ap NF 0])
    have v1: "NEXT_FREE_BLOCK m1 x \<in> insert 0 F"
      using c1 x by (simp add: links_closed_def)
    show ?thesis using d c1 v1 kept_set_PREV [OF NF, of m 0] unfolding rb m1_def
      by (simp add: m_def)
  qed
  then show "links_closed F (mem (remove_block x s))"
    and "free_p (remove_block x s) \<in> insert 0 F"
    and "tags_kept F (mem s) (mem (remove_block x s))" by simp_all
qed

lemma insert_free_block_kept:
  assumes "free_p s \<in> insert 0 G" "p \<in> G"
  shows "tags_kept G (mem s) (mem (insert_free_block p s))"
proof (cases "free_p s = 0")
  case True
  then show ?thesis using assms(2)
    by (simp add: insert_free_block_def Let_def tags_kept_def GET_set_NEXT GET_set_PREV)
next
  case False
  then have "free_p s \<in> G" using assms(1) by simp
  then show ?thesis using assms(2) False
    by (simp add: insert_free_block_def Let_def tags_kept_def GET_set_NEXT GET_set_PREV)
qed

text \<open>Reading a tag.\<close>

lemma tag_size:
  assumes "8 dvd n" "n < 2 ^ 32" "GET m p = tag (n, a)"
  shows "ucast (GET_SIZE m p) = (of_nat n :: size_t)" and "GET_SIZE m p = (of_nat n :: uint)"
proof -
  have u: "unat (of_nat n :: size_t) = n" using assms(2) by (simp add: unat_of_nat)
  have f: "(if a then 1 else 0 :: size_t) \<le> 1" by simp
  have "ucast (PACK (of_nat n) (if a then 1 else 0) AND NOT 7) = (of_nat n :: size_t)"
    using assms(1,2) by (intro size_PACK f) (simp_all add: u)
  then show a: "ucast (GET_SIZE m p) = (of_nat n :: size_t)"
    by (simp add: GET_SIZE_def assms(3) tag_def)
  have "unat (GET_SIZE m p) = n"
    using arg_cong [OF a, of unat] by (simp only: unat_ucast_32_64 u)
  then show "GET_SIZE m p = (of_nat n :: uint)"
    using assms(2) by (simp add: word_unat_eq_iff unat_of_nat)
qed

lemma tag_alloc:
  assumes "8 dvd n" "n < 2 ^ 32" "GET m p = tag (n, a)"
  shows "(GET_ALLOC m p = 0) = (\<not> a)"
proof -
  have u: "unat (of_nat n :: size_t) = n" using assms(2) by (simp add: unat_of_nat)
  have f: "(if a then 1 else 0 :: size_t) \<le> 1" by simp
  have "unat (PACK (of_nat n) (if a then 1 else 0) AND 1) = unat (if a then 1 else 0 :: size_t)"
    using assms(1,2) by (intro alloc_PACK f) (simp_all add: u)
  then have "unat (GET_ALLOC m p) = (if a then 1 else 0)"
    by (simp add: GET_ALLOC_def assms(3) tag_def)
  then show ?thesis by (simp add: unat_eq_zero [symmetric] del: unat_eq_zero)
qed

lemma epilogue_alloc:
  assumes "GET m p = PACK 0 1"
  shows "GET_ALLOC m p \<noteq> 0"
  by (simp add: GET_ALLOC_def assms PACK_def)

lemma HDRP_blk_ptr [simp]: "HDRP (blk_ptr B h) = B + of_nat h"
  by (simp add: HDRP_def blk_ptr_def)

lemma GET_PUT_offs:
  assumes "a + 4 \<le> b \<or> b + 4 \<le> a" "a < 2 ^ 32" "b < 2 ^ 32"
  shows "GET (PUT m (B + of_nat a) v) (B + of_nat b) = GET m (B + of_nat b)"
  using assms by (intro GET_PUT_sep sep_offsets) simp_all

lemma put_free_tags:
  fixes m :: memory and B :: addr and h n :: nat
  assumes n: "8 dvd n" "24 \<le> n" "h + n + 4 \<le> 2 ^ 32"
  defines "m1 \<equiv> PUT m (HDRP (blk_ptr B h)) (PACK (of_nat n) 0)"
  defines "m2 \<equiv> PUT m1 (FTRP m1 (blk_ptr B h)) (PACK (of_nat n) 0)"
  shows "GET m2 (B + of_nat h) = tag (n, False)"
    and "GET m2 (B + of_nat (h + n - 4)) = tag (n, False)"
    and "\<And>t. t + 4 \<le> h \<or> h + n \<le> t \<Longrightarrow> t < 2 ^ 32 \<Longrightarrow> GET m2 (B + of_nat t) = GET m (B + of_nat t)"
    and "m2 = PUT (PUT m (B + of_nat h) (tag (n, False))) (B + of_nat (h + n - 4)) (tag (n, False))"
proof -
  have tg: "tag (n, False) = PACK (of_nat n) 0" by (simp add: tag_def)
  have m1: "m1 = PUT m (B + of_nat h) (tag (n, False))" by (simp add: m1_def tg)
  have g1: "GET m1 (B + of_nat h) = tag (n, False)" by (simp add: m1)
  have lt: "n < 2 ^ 32" using n(3) by simp
  have sz: "ucast (GET_SIZE m1 (B + of_nat h)) = (of_nat n :: size_t)"
    by (rule tag_size(1) [OF n(1) lt g1])
  have "(of_nat (h + n - 4) :: addr) = of_nat (h + n) - of_nat 4"
    using n(2) by (intro of_nat_diff) simp
  then have f: "FTRP m1 (blk_ptr B h) = B + of_nat (h + n - 4)"
    by (simp add: FTRP_def sz) (simp add: blk_ptr_def)
  show m2: "m2 = PUT (PUT m (B + of_nat h) (tag (n, False))) (B + of_nat (h + n - 4)) (tag (n, False))"
    unfolding m2_def f by (simp add: m1 tg)
  show "GET m2 (B + of_nat (h + n - 4)) = tag (n, False)" unfolding m2 by simp
  have "GET m2 (B + of_nat h) = GET (PUT m (B + of_nat h) (tag (n, False))) (B + of_nat h)"
    unfolding m2 using n by (intro GET_PUT_offs) simp_all
  then show "GET m2 (B + of_nat h) = tag (n, False)" by simp
  fix t :: nat assume t: "t + 4 \<le> h \<or> h + n \<le> t" "t < 2 ^ 32"
  have "GET m2 (B + of_nat t) = GET (PUT m (B + of_nat h) (tag (n, False))) (B + of_nat t)"
    unfolding m2 using n t by (intro GET_PUT_offs) auto
  also have "\<dots> = GET m (B + of_nat t)"
    using n t by (intro GET_PUT_offs) auto
  finally show "GET m2 (B + of_nat t) = GET m (B + of_nat t)" .
qed

lemma naf_append:
  "no_adjacent_free (xs @ ys) =
     (no_adjacent_free xs \<and> no_adjacent_free ys
      \<and> (xs = [] \<or> ys = [] \<or> snd (last xs) \<or> snd (hd ys)))"
proof (induction xs)
  case Nil
  then show ?case by simp
next
  case (Cons a xs)
  note IH = Cons.IH
  show ?case
  proof (cases xs)
    case Nil
    then show ?thesis by (cases ys) auto
  next
    case (Cons b xs')
    then show ?thesis using IH by auto
  qed
qed

lemma free_offs_empty: "(free_offs off bs = {}) = (\<forall>b \<in> set bs. snd b)"
  by (induction bs arbitrary: off) auto

lemma all_alloc_naf: "\<forall>b \<in> set bs. snd b \<Longrightarrow> no_adjacent_free bs"
  by (induction bs rule: no_adjacent_free.induct) auto

lemma dvd8_total_size: "sizes_ok bs \<Longrightarrow> 8 dvd total_size bs"
  by (induction bs) auto

lemma total_size_ge_24: "sizes_ok bs \<Longrightarrow> bs \<noteq> [] \<Longrightarrow> 24 \<le> total_size bs"
  by (cases bs) auto

lemma merge_chain:
  assumes ch: "heap_chain m B (xs @ ys @ zs)" and ys: "ys \<noteq> []" and n: "n = total_size ys"
    and h: "GET m' (B + of_nat (total_size xs)) = tag (n, False)"
    and f: "GET m' (B + of_nat (total_size xs + n - 4)) = tag (n, False)"
    and k: "\<And>t. t \<in> insert (total_size (xs @ ys @ zs)) (tag_offs 0 (xs @ ys @ zs)) \<Longrightarrow>
               t + 4 \<le> total_size xs \<or> total_size xs + n \<le> t \<Longrightarrow>
               GET m' (B + of_nat t) = GET m (B + of_nat t)"
  shows "heap_chain m' B (xs @ (n, False) # zs)"
proof -
  have b: "blocks_at m B 0 xs" "blocks_at m B (total_size xs) ys" "blocks_at m B (total_size xs + total_size ys) zs"
    and e: "GET m (B + of_nat (total_size xs + total_size ys + total_size zs)) = PACK 0 1"
    and l: "total_size xs + total_size ys + total_size zs + 4 \<le> 2 ^ 32"
    using ch by (simp_all add: heap_chain_def blocks_at_append add.assoc)
  have ok: "sizes_ok xs" "sizes_ok ys" "sizes_ok zs"
    using b by (simp_all add: blocks_at_sizes)
  have n8: "8 dvd n" and n24: "24 \<le> n"
    using ok(2) ys by (simp_all add: n dvd8_total_size total_size_ge_24)
  have bx: "blocks_at m' B 0 xs"
  proof (rule blocks_at_frame [OF b(1)], rule ballI)
    fix t assume t: "t \<in> tag_offs 0 xs"
    then have "t + 4 \<le> total_size xs" using tag_offs_range [OF ok(1) t] by simp
    then show "GET m' (B + of_nat t) = GET m (B + of_nat t)"
      using t by (intro k) (simp_all add: tag_offs_append)
  qed
  have bz: "blocks_at m' B (total_size xs + n) zs"
    unfolding n
  proof (rule blocks_at_frame [OF b(3)], rule ballI)
    fix t assume t: "t \<in> tag_offs (total_size xs + total_size ys) zs"
    then have "total_size xs + total_size ys \<le> t" using tag_offs_range [OF ok(3) t] by simp
    then show "GET m' (B + of_nat t) = GET m (B + of_nat t)"
      using t by (intro k) (simp_all add: tag_offs_append n)
  qed
  have "GET m' (B + of_nat (total_size xs + total_size ys + total_size zs)) = GET m (B + of_nat (total_size xs + total_size ys + total_size zs))"
    by (intro k) (simp_all add: n)
  then show ?thesis
    using bx bz h f n8 n24 e l
    by (simp add: heap_chain_def blocks_at_append n add.assoc)
qed

text \<open>Where the blocks of a chain lie.\<close>

lemma chain_safe:
  assumes ch: "heap_chain m B bs" and x: "x \<in> blk_ptr B ` blk_offs 0 bs"
    and t: "t \<in> insert (total_size bs) (tag_offs 0 bs)"
  shows "sep x 16 (B + of_nat t) 4" and "sep (B + of_nat t) 4 x 16"
proof -
  have ok: "sizes_ok bs" and l: "total_size bs + 4 \<le> 2 ^ 32"
    using ch blocks_at_sizes [of m B 0 bs] by (simp_all add: heap_chain_def)
  obtain h where h: "h \<in> blk_offs 0 bs" "x = B + of_nat (h + 4)"
    using x by (auto simp: blk_ptr_def)
  have d: "t \<le> h \<or> h + 20 \<le> t"
    using fields_off_tags [OF ok h(1), of t] t by auto
  have r: "h + 24 \<le> total_size bs" "t \<le> total_size bs"
    using blk_offs_range [OF ok h(1)] tag_offs_range [OF ok, of t 0] t by auto
  have b: "h + 4 < 2 ^ 63" "t < 2 ^ 63" using r l by simp_all
  show "sep x 16 (B + of_nat t) 4" unfolding h(2)
    using d b by (intro sep_offsets) auto
  show "sep (B + of_nat t) 4 x 16" unfolding h(2)
    using d b by (intro sep_offsets) auto
qed

lemma chain_apart:
  assumes ch: "heap_chain m B bs"
  shows "nodes_apart (blk_ptr B ` blk_offs 0 bs)"
  unfolding nodes_apart_def
proof (intro ballI impI)
  fix x y assume x: "x \<in> blk_ptr B ` blk_offs 0 bs" and y: "y \<in> blk_ptr B ` blk_offs 0 bs"
    and ne: "x \<noteq> y"
  have ok: "sizes_ok bs" and l: "total_size bs + 4 \<le> 2 ^ 32"
    using ch blocks_at_sizes [of m B 0 bs] by (simp_all add: heap_chain_def)
  obtain h where h: "h \<in> blk_offs 0 bs" "x = B + of_nat (h + 4)"
    using x by (auto simp: blk_ptr_def)
  obtain g where g: "g \<in> blk_offs 0 bs" "y = B + of_nat (g + 4)"
    using y by (auto simp: blk_ptr_def)
  have "h \<noteq> g" using ne h g by auto
  then have d: "h + 24 \<le> g \<or> g + 24 \<le> h" by (rule blocks_apart [OF ok h(1) g(1)])
  have r: "h + 24 \<le> total_size bs" "g + 24 \<le> total_size bs"
    using blk_offs_range [OF ok h(1)] blk_offs_range [OF ok g(1)] by auto
  show "sep x 16 y 16" unfolding h(2) g(2)
    using d r l by (intro sep_offsets) auto
qed

lemma nodes_apart_mono: "nodes_apart G \<Longrightarrow> F \<subseteq> G \<Longrightarrow> nodes_apart F"
  by (auto simp: nodes_apart_def)

lemma kept_tags:
  assumes "tags_kept G m m'" "\<forall>x \<in> G. sep x 16 q 4"
  shows "GET m' q = GET m q"
  using assms by (simp add: tags_kept_def)

subsection \<open>The four cases of coalesce\<close>

lemma coalesce_none:
  assumes "free_p s = 0 \<or> (GET_ALLOC (mem s) (FTRP (mem s) (PREV_BLKP (mem s) bp)) \<noteq> 0
      \<and> GET_ALLOC (mem s) (HDRP (NEXT_BLKP (mem s) bp)) \<noteq> 0)"
  shows "coalesce bp s = (bp, s)"
  using assms by (auto simp: coalesce_def Let_def)

lemma coalesce_prev:
  assumes "free_p s \<noteq> 0"
    and "GET_ALLOC (mem s) (FTRP (mem s) (PREV_BLKP (mem s) bp)) = 0"
    and "GET_ALLOC (mem s) (HDRP (NEXT_BLKP (mem s) bp)) \<noteq> 0"
    and "PREV_BLKP (mem s) bp = pb"
    and "ucast (GET_SIZE (mem s) (HDRP bp)) + ucast (GET_SIZE (mem s) (HDRP pb)) = szw"
  shows "coalesce bp s =
     (pb, (remove_block pb s)\<lparr>mem :=
        PUT (PUT (mem (remove_block pb s)) (HDRP pb) (PACK szw 0))
          (FTRP (PUT (mem (remove_block pb s)) (HDRP pb) (PACK szw 0)) pb) (PACK szw 0)\<rparr>)"
  using assms(1,2,3) unfolding assms(5) [symmetric] unfolding assms(4) [symmetric]
  by (simp add: coalesce_def Let_def)

lemma coalesce_next:
  assumes "free_p s \<noteq> 0"
    and "GET_ALLOC (mem s) (FTRP (mem s) (PREV_BLKP (mem s) bp)) \<noteq> 0"
    and "GET_ALLOC (mem s) (HDRP (NEXT_BLKP (mem s) bp)) = 0"
    and "NEXT_BLKP (mem s) bp = nb"
    and "ucast (GET_SIZE (mem s) (HDRP bp)) + ucast (GET_SIZE (mem s) (HDRP nb)) = szw"
  shows "coalesce bp s =
     (bp, (remove_block nb s)\<lparr>mem :=
        PUT (PUT (mem (remove_block nb s)) (HDRP bp) (PACK szw 0))
          (FTRP (PUT (mem (remove_block nb s)) (HDRP bp) (PACK szw 0)) bp) (PACK szw 0)\<rparr>)"
  using assms(1,2,3) unfolding assms(5) [symmetric] unfolding assms(4) [symmetric]
  by (simp add: coalesce_def Let_def)

lemma coalesce_both:
  assumes "free_p s \<noteq> 0"
    and "GET_ALLOC (mem s) (FTRP (mem s) (PREV_BLKP (mem s) bp)) = 0"
    and "GET_ALLOC (mem s) (HDRP (NEXT_BLKP (mem s) bp)) = 0"
    and "PREV_BLKP (mem s) bp = pb"
    and "NEXT_BLKP (mem (remove_block pb s)) bp = nb"
    and "PREV_BLKP (mem (remove_block nb (remove_block pb s))) bp = pb"
    and "ucast (GET_SIZE (mem s) (HDRP bp))
           + ucast (GET_SIZE (mem s) (HDRP pb) + GET_SIZE (mem s) (HDRP (NEXT_BLKP (mem s) bp))) = szw"
  shows "coalesce bp s =
     (pb, (remove_block nb (remove_block pb s))\<lparr>mem :=
        PUT (PUT (mem (remove_block nb (remove_block pb s))) (HDRP pb) (PACK szw 0))
          (FTRP (PUT (mem (remove_block nb (remove_block pb s))) (HDRP pb) (PACK szw 0)) pb)
          (PACK szw 0)\<rparr>)"
proof -
  have "coalesce bp s =
     (let sz1 = ucast (GET_SIZE (mem s) (HDRP bp))
           + ucast (GET_SIZE (mem s) (HDRP (PREV_BLKP (mem s) bp))
                    + GET_SIZE (mem s) (HDRP (NEXT_BLKP (mem s) bp)));
          s1 = remove_block (PREV_BLKP (mem s) bp) s;
          s2 = remove_block (NEXT_BLKP (mem s1) bp) s1;
          bp1 = PREV_BLKP (mem s2) bp;
          m1 = PUT (mem s2) (HDRP bp1) (PACK sz1 0);
          m2 = PUT m1 (FTRP m1 bp1) (PACK sz1 0)
      in (bp1, s2\<lparr>mem := m2\<rparr>))"
    using assms(1,2,3) by (simp add: coalesce_def Let_def)
  then show ?thesis
    by (simp only: Let_def assms(4) assms(5) assms(6) assms(7))
qed

subsection \<open>Reading and writing the tags of a chain\<close>

lemma chain_kept:
  assumes ch: "heap_chain m B bs" and k: "tags_kept G m m'"
    and G: "G \<subseteq> blk_ptr B ` blk_offs 0 bs"
  shows "heap_chain m' B bs"
proof -
  have e: "GET m' (B + of_nat t) = GET m (B + of_nat t)"
    if t: "t \<in> insert (total_size bs) (tag_offs 0 bs)" for t
  proof (rule kept_tags [OF k], rule ballI)
    fix x assume "x \<in> G"
    then have "x \<in> blk_ptr B ` blk_offs 0 bs" using G by blast
    then show "sep x 16 (B + of_nat t) 4" using t by (intro chain_safe(1) [OF ch])
  qed
  have "blocks_at m' B 0 bs"
    using ch e by (intro blocks_at_frame [of m B 0 bs m']) (simp_all add: heap_chain_def)
  then show ?thesis using ch e [of "total_size bs"] by (simp add: heap_chain_def)
qed

lemma merge_put:
  fixes m :: memory and B :: addr
  assumes ch: "heap_chain m B (xs @ ys @ zs)" and ys: "ys \<noteq> []" and n: "n = total_size ys"
  defines "m1 \<equiv> PUT m (HDRP (blk_ptr B (total_size xs))) (PACK (of_nat n) 0)"
  shows "heap_chain (PUT m1 (FTRP m1 (blk_ptr B (total_size xs))) (PACK (of_nat n) 0)) B
           (xs @ (n, False) # zs)"
proof -
  have ok: "sizes_ok (xs @ ys @ zs)" and l: "total_size (xs @ ys @ zs) + 4 \<le> 2 ^ 32"
    using ch blocks_at_sizes [of m B 0 "xs @ ys @ zs"] by (simp_all add: heap_chain_def)
  have n8: "8 dvd n" and n24: "24 \<le> n"
    using ok ys by (simp_all add: n dvd8_total_size total_size_ge_24)
  have b: "total_size xs + n + 4 \<le> 2 ^ 32" using l by (simp add: n)
  note p = put_free_tags [where m = m and B = B, OF n8 n24 b, folded m1_def]
  show ?thesis
  proof (rule merge_chain [OF ch ys n p(1) p(2)])
    fix t assume t: "t \<in> insert (total_size (xs @ ys @ zs)) (tag_offs 0 (xs @ ys @ zs))"
      and o: "t + 4 \<le> total_size xs \<or> total_size xs + n \<le> t"
    have "t \<le> total_size (xs @ ys @ zs)" using tag_offs_range [OF ok, of t 0] t by auto
    then have "t < 2 ^ 32" using l by simp
    then show "GET (PUT m1 (FTRP m1 (blk_ptr B (total_size xs))) (PACK (of_nat n) 0)) (B + of_nat t)
        = GET m (B + of_nat t)"
      using o by (intro p(3))
  qed
qed

lemma chain_reads:
  assumes ch: "heap_chain m B (pre' @ (psz, pal) # (sz, al) # post)"
    and bp: "bp = blk_ptr B (total_size pre' + psz)"
  shows "PREV_BLKP m bp = blk_ptr B (total_size pre')"
    and "NEXT_BLKP m bp = blk_ptr B (total_size pre' + psz + sz)"
    and "(GET_ALLOC m (FTRP m (blk_ptr B (total_size pre'))) = 0) = (\<not> pal)"
    and "ucast (GET_SIZE m (HDRP bp)) = (of_nat sz :: size_t)"
    and "ucast (GET_SIZE m (HDRP (blk_ptr B (total_size pre')))) = (of_nat psz :: size_t)"
    and "GET_SIZE m (HDRP (blk_ptr B (total_size pre'))) = (of_nat psz :: uint)"
proof -
  have b1: "blocks_at m B (total_size pre') ((psz, pal) # (sz, al) # post)"
    using ch unfolding heap_chain_def blocks_at_append by (simp only: add_0)
  have l: "total_size pre' + psz + sz + total_size post + 4 \<le> 2 ^ 32"
    using ch by (simp add: heap_chain_def)
  have z: "8 dvd psz" "24 \<le> psz" "8 dvd sz" "24 \<le> sz"
    and t1: "GET m (B + of_nat (total_size pre')) = tag (psz, pal)"
    and t3: "GET m (B + of_nat (total_size pre' + psz)) = tag (sz, al)"
    using b1 by simp_all
  have t2: "GET m (B + of_nat (total_size pre' + psz - 4)) = tag (psz, pal)"
    using b1 by (simp only: blocks_at.simps fst_conv)
  have lt: "psz < 2 ^ 32" "sz < 2 ^ 32" using l by simp_all
  have "(of_nat (total_size pre' + psz - 4) :: addr) = of_nat (total_size pre' + psz) - of_nat 4"
    using z(2) by (intro of_nat_diff) simp
  then have e1: "bp - 8 = B + of_nat (total_size pre' + psz - 4)"
    by (simp add: bp blk_ptr_def)
  have e2: "bp - 4 = B + of_nat (total_size pre' + psz)"
    by (simp add: bp blk_ptr_def)
  show "PREV_BLKP m bp = blk_ptr B (total_size pre')"
    unfolding PREV_BLKP_def e1 tag_size(1) [OF z(1) lt(1) t2]
    by (simp add: bp blk_ptr_def)
  show "NEXT_BLKP m bp = blk_ptr B (total_size pre' + psz + sz)"
    unfolding NEXT_BLKP_def e2 tag_size(1) [OF z(3) lt(2) t3]
    by (simp add: bp blk_ptr_def)
  show "ucast (GET_SIZE m (HDRP bp)) = (of_nat sz :: size_t)"
    unfolding HDRP_def e2 by (rule tag_size(1) [OF z(3) lt(2) t3])
  show s5: "ucast (GET_SIZE m (HDRP (blk_ptr B (total_size pre')))) = (of_nat psz :: size_t)"
    unfolding HDRP_blk_ptr by (rule tag_size(1) [OF z(1) lt(1) t1])
  show "GET_SIZE m (HDRP (blk_ptr B (total_size pre'))) = (of_nat psz :: uint)"
    unfolding HDRP_blk_ptr by (rule tag_size(2) [OF z(1) lt(1) t1])
  have "FTRP m (blk_ptr B (total_size pre')) = bp - 8"
    unfolding FTRP_def s5 by (simp add: bp blk_ptr_def)
  then show "(GET_ALLOC m (FTRP m (blk_ptr B (total_size pre'))) = 0) = (\<not> pal)"
    unfolding e1 using tag_alloc [OF z(1) lt(1) t2] by simp
qed

lemma chain_reads_next:
  assumes ch: "heap_chain m B (pre @ (nsz, nal) # post')"
  shows "(GET_ALLOC m (HDRP (blk_ptr B (total_size pre))) = 0) = (\<not> nal)"
    and "ucast (GET_SIZE m (HDRP (blk_ptr B (total_size pre)))) = (of_nat nsz :: size_t)"
    and "GET_SIZE m (HDRP (blk_ptr B (total_size pre))) = (of_nat nsz :: uint)"
proof -
  have z: "8 dvd nsz" "24 \<le> nsz"
    and l: "total_size pre + nsz + total_size post' + 4 \<le> 2 ^ 32"
    and t1: "GET m (B + of_nat (total_size pre)) = tag (nsz, nal)"
    using ch by (simp_all add: heap_chain_def blocks_at_append add.assoc)
  have lt: "nsz < 2 ^ 32" using l by simp
  show "(GET_ALLOC m (HDRP (blk_ptr B (total_size pre))) = 0) = (\<not> nal)"
    unfolding HDRP_blk_ptr by (rule tag_alloc [OF z(1) lt t1])
  show "ucast (GET_SIZE m (HDRP (blk_ptr B (total_size pre)))) = (of_nat nsz :: size_t)"
    unfolding HDRP_blk_ptr by (rule tag_size(1) [OF z(1) lt t1])
  show "GET_SIZE m (HDRP (blk_ptr B (total_size pre))) = (of_nat nsz :: uint)"
    unfolding HDRP_blk_ptr by (rule tag_size(2) [OF z(1) lt t1])
qed

lemma chain_reads_end:
  assumes ch: "heap_chain m B pre"
  shows "GET_ALLOC m (HDRP (blk_ptr B (total_size pre))) \<noteq> 0"
  unfolding HDRP_blk_ptr using ch by (intro epilogue_alloc) (simp add: heap_chain_def)

lemma naf_Cons:
  "no_adjacent_free (b # bs) = (no_adjacent_free bs \<and> (bs = [] \<or> snd b \<or> snd (hd bs)))"
  using naf_append [of "[b]" bs] by auto

lemma ucast_sum_sizes:
  assumes "a + b < 2 ^ 32"
  shows "(ucast ((of_nat a :: uint) + of_nat b) :: size_t) = of_nat (a + b)"
proof -
  have e: "(of_nat a :: uint) + of_nat b = of_nat (a + b)" by simp
  have "unat (of_nat (a + b) :: uint) = (a + b) mod 2 ^ 32"
    unfolding unat_of_nat by simp
  then have "unat (of_nat (a + b) :: uint) = a + b"
    using assms by (simp only: mod_less)
  then have "unat ((of_nat a :: uint) + of_nat b) = a + b"
    by (simp only: e)
  then have "unat (ucast ((of_nat a :: uint) + of_nat b) :: size_t) = a + b"
    by (simp only: unat_ucast_32_64)
  moreover have "unat (of_nat (a + b) :: size_t) = (a + b) mod 2 ^ 64"
    unfolding unat_of_nat by simp
  then have "unat (of_nat (a + b) :: size_t) = a + b"
    using assms by simp
  ultimately show ?thesis by (simp only: word_unat_eq_iff)
qed

subsection \<open>Coalescing and freeing\<close>

lemma coalesce_chain:
  fixes s :: state and B :: addr
  assumes ch: "heap_chain (mem s) B (pre' @ (psz, pal) # (sz, False) # post)"
    and naf: "no_adjacent_free (pre' @ (psz, pal) # (sz, True) # post)"
    and F: "F = blk_ptr B ` free_offs 0 (pre' @ (psz, pal) # (sz, True) # post)"
    and cl: "links_closed F (mem s)"
    and fp: "free_p s \<in> insert 0 F"
    and fp0: "free_p s = 0 \<longrightarrow> free_offs 0 (pre' @ (psz, pal) # (sz, True) # post) = {}"
    and bp: "bp = blk_ptr B (total_size pre' + psz)"
  shows "\<exists>xs n zs. merged B (pre' @ (psz, pal) # (sz, False) # post) F (total_size pre' + psz) sz
            (coalesce bp s) xs n zs"
proof -
  define bsA where "bsA = pre' @ (psz, pal) # (sz, False) # post"
  define pb where "pb = blk_ptr B (total_size pre')"
  define nb where "nb = blk_ptr B (total_size pre' + psz + sz)"
  define nfree where "nfree = (post \<noteq> [] \<and> \<not> snd (hd post))"
  note chA = ch [folded bsA_def]
  note r = chain_reads [OF ch bp, folded pb_def nb_def]
  have Fsub: "F \<subseteq> blk_ptr B ` blk_offs 0 bsA"
    using free_offs_blk [of 0 "pre' @ (psz, pal) # (sz, True) # post"]
    by (auto simp: F bsA_def blk_offs_append)
  have ap: "nodes_apart F" by (rule nodes_apart_mono [OF chain_apart [OF chA] Fsub])
  have rn: "(GET_ALLOC m (HDRP nb) = 0) = nfree" if c: "heap_chain m B bsA" for m
  proof (cases post)
    case Nil
    have "heap_chain m B (pre' @ [(psz, pal), (sz, False)])" using c by (simp add: bsA_def Nil)
    from chain_reads_end [OF this] show ?thesis by (simp add: nb_def nfree_def Nil add.assoc)
  next
    case (Cons nx post')
    have "heap_chain m B ((pre' @ [(psz, pal), (sz, False)]) @ (fst nx, snd nx) # post')"
      using c by (simp add: bsA_def Cons)
    from chain_reads_next(1) [OF this] show ?thesis by (simp add: nb_def nfree_def Cons add.assoc)
  qed
  have n1: "no_adjacent_free pre'" "no_adjacent_free post" "pre' = [] \<or> pal \<or> snd (last pre')"
    using naf by (auto simp: naf_append naf_Cons)
  have sub: "total_size pre' \<in> blk_offs 0 bsA" "total_size pre' + psz \<in> blk_offs 0 bsA"
    by (simp_all add: bsA_def blk_offs_append)
  consider (none) "free_p s = 0 \<or> (pal \<and> \<not> nfree)"
    | (prev) "free_p s \<noteq> 0" "\<not> pal" "\<not> nfree"
    | (nxt) "free_p s \<noteq> 0" "pal" "nfree"
    | (both) "free_p s \<noteq> 0" "\<not> pal" "nfree"
    by blast
  then show ?thesis
  proof cases
    case none
    have "free_p s = 0 \<or> (GET_ALLOC (mem s) (FTRP (mem s) (PREV_BLKP (mem s) bp)) \<noteq> 0
        \<and> GET_ALLOC (mem s) (HDRP (NEXT_BLKP (mem s) bp)) \<noteq> 0)"
      unfolding r(1) r(2) using none r(3) rn [OF chA] by auto
    then have co: "coalesce bp s = (bp, s)" by (rule coalesce_none)
    have a: "pal \<and> (post = [] \<or> snd (hd post))"
    proof (cases "free_p s = 0")
      case True
      then have "\<forall>b \<in> set (pre' @ (psz, pal) # (sz, True) # post). snd b"
        using fp0 free_offs_empty [of 0 "pre' @ (psz, pal) # (sz, True) # post"] by blast
      then show ?thesis by (cases post) auto
    next
      case False
      then show ?thesis using none by (auto simp: nfree_def)
    qed
    have "merged B bsA F (total_size pre' + psz) sz (coalesce bp s) (pre' @ [(psz, pal)]) sz post"
      unfolding merged_def co
      using ch fp a n1 sub
      by (simp add: bp bsA_def naf_append naf_Cons)
    then show ?thesis unfolding bsA_def by blast
  next
    case prev
    have pbF: "pb \<in> F" using prev(2) by (simp add: F pb_def free_offs_append)
    note rm = remove_block_closed [OF cl ap fp pbF]
    define s1 where "s1 = remove_block pb s"
    have ch1: "heap_chain (mem s1) B (pre' @ [(psz, pal), (sz, False)] @ post)"
      using chain_kept [OF chA rm(3) Fsub] by (simp add: s1_def bsA_def)
    have szw: "ucast (GET_SIZE (mem s) (HDRP bp)) + ucast (GET_SIZE (mem s) (HDRP pb))
        = (of_nat (psz + sz) :: size_t)"
      unfolding r(4) r(5) by simp
    have c1: "GET_ALLOC (mem s) (FTRP (mem s) (PREV_BLKP (mem s) bp)) = 0"
      unfolding r(1) using prev(2) r(3) by simp
    have c2: "GET_ALLOC (mem s) (HDRP (NEXT_BLKP (mem s) bp)) \<noteq> 0"
      unfolding r(2) using prev(3) rn [OF chA] by simp
    note co = coalesce_prev [OF prev(1) c1 c2 r(1) szw, folded s1_def]
    have a: "post = [] \<or> snd (hd post)" using prev(3) by (simp add: nfree_def)
    have "merged B bsA F (total_size pre' + psz) sz (coalesce bp s) pre' (psz + sz) post"
      unfolding merged_def co
      using merge_put [OF ch1, of "psz + sz"] rm(2) a n1 sub(1) prev(2)
      by (auto simp: pb_def bsA_def naf_append naf_Cons s1_def tag_offs_append add.assoc)
    then show ?thesis unfolding bsA_def by blast
  next
    case nxt
    then obtain nsz post' where post: "post = (nsz, False) # post'"
      by (cases post) (auto simp: nfree_def)
    have nbF: "nb \<in> F" by (simp add: F nb_def free_offs_append post add.assoc)
    note rm = remove_block_closed [OF cl ap fp nbF]
    define s1 where "s1 = remove_block nb s"
    have ch1: "heap_chain (mem s1) B ((pre' @ [(psz, pal)]) @ [(sz, False), (nsz, False)] @ post')"
      using chain_kept [OF chA rm(3) Fsub] by (simp add: s1_def bsA_def post)
    have "heap_chain (mem s) B ((pre' @ [(psz, pal), (sz, False)]) @ (nsz, False) # post')"
      using ch by (simp add: post)
    from chain_reads_next(2) [OF this]
    have rs: "ucast (GET_SIZE (mem s) (HDRP nb)) = (of_nat nsz :: size_t)"
      by (simp add: nb_def add.assoc)
    have szw: "ucast (GET_SIZE (mem s) (HDRP bp)) + ucast (GET_SIZE (mem s) (HDRP nb))
        = (of_nat (sz + nsz) :: size_t)"
      unfolding r(4) rs by simp
    have c1: "GET_ALLOC (mem s) (FTRP (mem s) (PREV_BLKP (mem s) bp)) \<noteq> 0"
      unfolding r(1) using nxt(2) r(3) by simp
    have c2: "GET_ALLOC (mem s) (HDRP (NEXT_BLKP (mem s) bp)) = 0"
      unfolding r(2) using nxt(3) rn [OF chA] by simp
    note co = coalesce_next [OF nxt(1) c1 c2 r(2) szw, folded s1_def]
    have a: "post' = [] \<or> snd (hd post')" "no_adjacent_free post'"
      using n1(2) by (auto simp: post naf_Cons)
    have "merged B bsA F (total_size pre' + psz) sz (coalesce bp s) (pre' @ [(psz, pal)]) (sz + nsz) post'"
      unfolding merged_def co
      using merge_put [OF ch1, of "sz + nsz"] rm(2) a n1 sub(2) nxt(2)
      by (auto simp: bp bsA_def naf_append naf_Cons s1_def tag_offs_append add.assoc post)
    then show ?thesis unfolding bsA_def by blast
  next
    case both
    then obtain nsz post' where post: "post = (nsz, False) # post'"
      by (cases post) (auto simp: nfree_def)
    have pbF: "pb \<in> F" using both(2) by (simp add: F pb_def free_offs_append)
    have nbF: "nb \<in> F" by (simp add: F nb_def free_offs_append post add.assoc)
    note rm1 = remove_block_closed [OF cl ap fp pbF]
    define s1 where "s1 = remove_block pb s"
    have chA1: "heap_chain (mem s1) B bsA"
      using chain_kept [OF chA rm1(3) Fsub] by (simp add: s1_def)
    note rm2 = remove_block_closed [OF rm1(1) ap rm1(2) nbF, folded s1_def]
    define s2 where "s2 = remove_block nb s1"
    have chA2: "heap_chain (mem s2) B bsA"
      using chain_kept [OF chA1 rm2(3) Fsub] by (simp add: s2_def)
    have ch2: "heap_chain (mem s2) B (pre' @ [(psz, pal), (sz, False), (nsz, False)] @ post')"
      using chA2 by (simp add: bsA_def post)
    note r1 = chain_reads [OF chA1 [unfolded bsA_def] bp, folded pb_def nb_def]
    note r2 = chain_reads [OF chA2 [unfolded bsA_def] bp, folded pb_def nb_def]
    have "heap_chain (mem s) B ((pre' @ [(psz, pal), (sz, False)]) @ (nsz, False) # post')"
      using ch by (simp add: post)
    from chain_reads_next(3) [OF this]
    have rs: "GET_SIZE (mem s) (HDRP nb) = (of_nat nsz :: uint)"
      by (simp add: nb_def add.assoc)
    have l: "psz + nsz < 2 ^ 32" using ch by (simp add: heap_chain_def post)
    have szw: "ucast (GET_SIZE (mem s) (HDRP bp))
         + ucast (GET_SIZE (mem s) (HDRP pb) + GET_SIZE (mem s) (HDRP (NEXT_BLKP (mem s) bp)))
        = (of_nat (psz + sz + nsz) :: size_t)"
      unfolding r(2) r(4) r(6) rs ucast_sum_sizes [OF l] by simp
    have c1: "GET_ALLOC (mem s) (FTRP (mem s) (PREV_BLKP (mem s) bp)) = 0"
      unfolding r(1) using both(2) r(3) by simp
    have c2: "GET_ALLOC (mem s) (HDRP (NEXT_BLKP (mem s) bp)) = 0"
      unfolding r(2) using both(3) rn [OF chA] by simp
    note co = coalesce_both [OF both(1) c1 c2 r(1) r1(2) [unfolded s1_def]
        r2(1) [unfolded s2_def s1_def] szw, folded s1_def, folded s2_def]
    have a: "post' = [] \<or> snd (hd post')" "no_adjacent_free post'"
      using n1(2) by (auto simp: post naf_Cons)
    have "merged B bsA F (total_size pre' + psz) sz (coalesce bp s) pre' (psz + sz + nsz) post'"
      unfolding merged_def co
      using merge_put [OF ch2, of "psz + sz + nsz"] rm2(2) a n1 sub(1) both(2)
      by (auto simp: pb_def bsA_def naf_append naf_Cons s2_def tag_offs_append add.assoc post)
    then show ?thesis unfolding bsA_def by blast
  qed
qed

lemma chain_kept_sub:
  assumes ch': "heap_chain m B bs'" and k: "tags_kept G m m'"
    and ch: "heap_chain m0 B bs" and G: "G \<subseteq> blk_ptr B ` blk_offs 0 bs"
    and T: "insert (total_size bs') (tag_offs 0 bs') \<subseteq> insert (total_size bs) (tag_offs 0 bs)"
  shows "heap_chain m' B bs'"
proof -
  have e: "GET m' (B + of_nat t) = GET m (B + of_nat t)"
    if t: "t \<in> insert (total_size bs') (tag_offs 0 bs')" for t
  proof (rule kept_tags [OF k], rule ballI)
    fix x assume "x \<in> G"
    then have x: "x \<in> blk_ptr B ` blk_offs 0 bs" using G by blast
    have "t \<in> insert (total_size bs) (tag_offs 0 bs)" using t T by blast
    then show "sep x 16 (B + of_nat t) 4" by (intro chain_safe(1) [OF ch x])
  qed
  have "blocks_at m' B 0 bs'"
    using ch' e by (intro blocks_at_frame [of m B 0 bs' m']) (simp_all add: heap_chain_def)
  then show ?thesis using ch' e [of "total_size bs'"] by (simp add: heap_chain_def)
qed

text \<open>
  C2. Let the heap be well formed, with no two neighbouring blocks free, and let \<open>bp\<close> be
  a non-null pointer to an allocated block other than the first (the prologue), on an
  initialised allocator. Then \<open>free(bp)\<close> returns, and the state it leaves is the result
  of \<open>insert_free_block\<close> applied to what \<open>coalesce\<close> returned for \<open>bp\<close>: the heap is again
  a well-formed chain of blocks covering the same bytes, in which no two neighbouring
  blocks are both free; the block that was freed lies inside a free block of that chain,
  and this free block is the new head of the free list.
\<close>

theorem free_coalesces:
  assumes inv: "heap_inv s (pre @ (sz, True) # post)"
    and pre: "pre \<noteq> []" and init: "heap_listp s \<noteq> 0"
    and bp: "bp = blk_ptr (HDRP (heap_listp s)) (total_size pre)" and nz: "bp \<noteq> 0"
  shows "\<exists>t s' xs n zs. free bp s = return s'
      \<and> s' = insert_free_block (fst (coalesce bp t)) (snd (coalesce bp t))
      \<and> heap_listp s' = heap_listp s
      \<and> heap_chain (mem s') (HDRP (heap_listp s)) (xs @ (n, False) # zs)
      \<and> no_adjacent_free (xs @ (n, False) # zs)
      \<and> free_p s' = blk_ptr (HDRP (heap_listp s)) (total_size xs)
      \<and> total_size xs \<le> total_size pre \<and> total_size pre + sz \<le> total_size xs + n
      \<and> total_size (xs @ (n, False) # zs) = total_size (pre @ (sz, True) # post)"
proof -
  define B where "B = HDRP (heap_listp s)"
  obtain pre' p where pre': "pre = pre' @ [p]" using pre by (cases pre rule: rev_cases) auto
  obtain psz pal where p: "p = (psz, pal)" by (cases p)
  define bs where "bs = pre' @ (psz, pal) # (sz, True) # post"
  define bsA where "bsA = pre' @ (psz, pal) # (sz, False) # post"
  define F where "F = blk_ptr B ` free_offs 0 bs"
  have bs: "pre @ (sz, True) # post = bs" by (simp add: bs_def pre' p)
  have bp': "bp = blk_ptr B (total_size pre' + psz)" by (simp add: bp B_def pre' p)
  have ch0: "heap_chain (mem s) B bs" and naf: "no_adjacent_free bs"
    and cl: "links_closed F (mem s)" and fp: "free_p s \<in> insert 0 F"
    and fp0: "free_p s = 0 \<longrightarrow> free_offs 0 bs = {}"
    using inv unfolding bs heap_inv_def B_def [symmetric] F_def by simp_all
  have szw: "ucast (GET_SIZE (mem s) (HDRP bp)) = (of_nat sz :: size_t)"
    by (rule chain_reads(4) [OF ch0 [unfolded bs_def] bp'])
  define m1 where "m1 = PUT (mem s) (HDRP bp) (PACK (of_nat sz) 0)"
  define mA where "mA = PUT m1 (FTRP m1 bp) (PACK (of_nat sz) 0)"
  have ch0': "heap_chain (mem s) B ((pre' @ [(psz, pal)]) @ [(sz, True)] @ post)"
    using ch0 by (simp add: bs_def)
  have z: "8 dvd sz" "24 \<le> sz" "total_size pre' + psz + sz + 4 \<le> 2 ^ 32"
    using ch0 by (simp_all add: bs_def heap_chain_def blocks_at_append)
  have chA: "heap_chain mA B bsA"
    using merge_put [OF ch0', of sz] by (simp add: mA_def m1_def bp' bsA_def)
  have Fsub: "F \<subseteq> blk_ptr B ` blk_offs 0 bs"
    using free_offs_blk [of 0 bs] by (auto simp: F_def)
  have offs: "blk_offs 0 bsA = blk_offs 0 bs" "tag_offs 0 bsA = tag_offs 0 bs" "total_size bsA = total_size bs"
    by (simp_all add: bs_def bsA_def blk_offs_append tag_offs_append)
  have mA': "mA = PUT (PUT (mem s) (B + of_nat (total_size pre' + psz)) (tag (sz, False)))
       (B + of_nat (total_size pre' + psz + sz - 4)) (tag (sz, False))"
    using put_free_tags(4) [OF z, of "mem s" B] by (simp add: mA_def m1_def bp')
  have clA: "links_closed F mA"
    unfolding mA'
  proof (intro closed_PUT [OF cl] closed_PUT ballI)
    fix x assume "x \<in> F"
    then have x: "x \<in> blk_ptr B ` blk_offs 0 bs" using Fsub by blast
    show "sep (B + of_nat (total_size pre' + psz)) 4 x 16"
      by (rule chain_safe(2) [OF ch0 x]) (simp add: bs_def tag_offs_append)
    show "sep (B + of_nat (total_size pre' + psz + sz - 4)) 4 x 16"
      by (rule chain_safe(2) [OF ch0 x]) (simp add: bs_def tag_offs_append add.assoc)
  qed
  define sA where "sA = s\<lparr>mem := mA\<rparr>"
  obtain xs n zs where mg: "merged B bsA F (total_size pre' + psz) sz (coalesce bp sA) xs n zs"
    using coalesce_chain [of sA B pre' psz pal sz post F bp] chA naf clA fp fp0 bp'
    unfolding bsA_def bs_def F_def sA_def by auto
  define bp1 where "bp1 = fst (coalesce bp sA)"
  define s2 where "s2 = snd (coalesce bp sA)"
  define s' where "s' = insert_free_block bp1 s2"
  note mg' = mg [unfolded merged_def, folded bp1_def s2_def]
  have fr: "free bp s = return s'"
    using nz init
    by (simp add: free_def Let_def szw case_prod_unfold s'_def bp1_def s2_def sA_def mA_def m1_def)
  have "same_env s s'"
    unfolding s'_def s2_def sA_def by (intro env_insert env_coalesce env_mem env_refl)
  then have hl: "heap_listp s' = heap_listp s" by (simp add: same_env_def)
  define G where "G = insert bp1 F"
  have G: "G \<subseteq> blk_ptr B ` blk_offs 0 bsA"
    using mg' Fsub by (auto simp: G_def offs)
  have k: "tags_kept G (mem s2) (mem s')"
    unfolding s'_def using mg' by (intro insert_free_block_kept) (auto simp: G_def)
  have ch': "heap_chain (mem s') B (xs @ (n, False) # zs)"
    using mg' by (intro chain_kept_sub [OF _ k chA G]) simp_all
  have t: "total_size xs \<le> total_size pre" "total_size pre + sz \<le> total_size xs + n"
    "total_size (xs @ (n, False) # zs) = total_size (pre @ (sz, True) # post)"
    using mg' by (simp_all add: pre' p offs bs_def)
  have hd: "free_p s' = blk_ptr B (total_size xs)"
    using mg' by (simp add: s'_def insert_free_block_def Let_def)
  have na: "no_adjacent_free (xs @ (n, False) # zs)" using mg' by simp
  have "free bp s = return s'
      \<and> s' = insert_free_block (fst (coalesce bp sA)) (snd (coalesce bp sA))
      \<and> heap_listp s' = heap_listp s
      \<and> heap_chain (mem s') (HDRP (heap_listp s)) (xs @ (n, False) # zs)
      \<and> no_adjacent_free (xs @ (n, False) # zs)
      \<and> free_p s' = blk_ptr (HDRP (heap_listp s)) (total_size xs)
      \<and> total_size xs \<le> total_size pre \<and> total_size pre + sz \<le> total_size xs + n
      \<and> total_size (xs @ (n, False) # zs) = total_size (pre @ (sz, True) # post)"
    using fr hl ch' na hd t unfolding B_def by (simp add: s'_def bp1_def s2_def)
  then show ?thesis by blast
qed

section \<open>Concrete heaps\<close>


lemma le_val_zeros [simp]: "le_val (map (\<lambda>_. 0) xs) = 0"
  by (induction xs) auto

lemma GET_zero [simp]: "GET (\<lambda>_. 0) p = 0"
  by (simp add: GET_def load_def)

lemma GET_PTR_zero [simp]: "GET_PTR (\<lambda>_. 0) p = 0"
  by (simp add: GET_PTR_def load_def)

lemmas read_write = GET_PUT_sep GET_PUT_PTR_sep GET_PTR_PUT_sep GET_PTR_PUT_PTR_sep sep_def

lemmas macros = HDRP_def FTRP_def NEXT_BLKP_def PREV_BLKP_def GET_SIZE_def GET_ALLOC_def
  NEXT_FREE_BLOCK_def PREV_FREE_BLOCK_def set_NEXT_FREE_BLOCK_def set_PREV_FREE_BLOCK_def

section \<open>C1: first fit\<close>



lemma heap_W_fields [simp]:
  "mem (heap_W cap) = heap_W_mem" "heap_listp (heap_W cap) = 0x10008"
  "free_p (heap_W cap) = 0x10020" "mem_heap (heap_W cap) = 0x10000"
  "mem_brk (heap_W cap) = 0x11020" "mem_max_addr (heap_W cap) = 0x10000 + cap"
  "checkheap_runs (heap_W cap) = 1"
  by (simp_all add: heap_W_def)

lemma heap_W_links:
  "GET_PTR heap_W_mem 0x10020 = 0" "GET_PTR heap_W_mem 0x10028 = 0x100C0"
  "GET_PTR heap_W_mem 0x100C0 = 0x10020" "GET_PTR heap_W_mem 0x100C8 = 0"
  by (simp_all add: heap_W_mem_def read_write)

lemma heap_W_tags:
  "GET heap_W_mem 0x10004 = 25" "GET heap_W_mem 0x10018 = 25"
  "GET heap_W_mem 0x1001C = 24" "GET heap_W_mem 0x10030 = 24"
  "GET heap_W_mem 0x10034 = 113" "GET heap_W_mem 0x100A0 = 113"
  "GET heap_W_mem 0x100A4 = 25" "GET heap_W_mem 0x100B8 = 25"
  "GET heap_W_mem 0x100BC = 3936" "GET heap_W_mem 0x11018 = 3936"
  "GET heap_W_mem 0x1101C = 1"
  by (simp_all add: heap_W_mem_def read_write)




lemma boot_fields [simp]:
  "mem (boot cap) = (\<lambda>_. 0)" "heap_listp (boot cap) = 0"
  "free_p (boot cap) = 0" "mem_heap (boot cap) = 0x10000"
  "mem_brk (boot cap) = 0x10000" "mem_max_addr (boot cap) = 0x10000 + cap"
  "checkheap_runs (boot cap) = 0"
  by (simp_all add: boot_def)

section \<open>C8: null and zero-size requests\<close>

lemma malloc_zero_unset:
  assumes "heap_listp s = 0"
  shows "malloc 0 s \<noteq> return (0, s)"
proof
  assume "malloc 0 s = return (0, s)"
  then have "bind_run (bind_run (mm_init s) (\<lambda>(r, s1). return s1)) (\<lambda>s1. return (0 :: addr, s1)) = return (0, s)"
    using assms by (simp add: malloc_def init_if_unset_def)
  then obtain r where "mm_init s = Some (Inr (r, s))"
    unfolding return_def by (auto dest!: bind_run_returns)
  then have "heap_listp s \<noteq> 0" by (rule mm_init_sets_heap_listp)
  with assms show False by simp
qed

text \<open>
  C8, as amended. \<open>free(NULL)\<close> returns without changing the state, and \<open>malloc(0)\<close>
  returns \<open>NULL\<close> without changing the state once the allocator is initialised.
\<close>

theorem invalid_input_noop:
  "free 0 s = return s \<and> (heap_listp s \<noteq> 0 \<longrightarrow> malloc 0 s = return (0, s))"
  by (simp add: free_def malloc_def)

theorem invalid_input_noop_witness:
  "free 0 (heap_W 0x1400000) = return (heap_W 0x1400000)
   \<and> heap_listp (heap_W 0x1400000) \<noteq> 0
   \<and> malloc 0 (heap_W 0x1400000) = return (0, heap_W 0x1400000)"
  using invalid_input_noop [of "heap_W 0x1400000"] by simp

text \<open>
  C8 as stated fails before initialisation: \<open>malloc\<close> tests \<open>heap_listp\<close> before it tests
  the size, so \<open>malloc(0)\<close> on the fresh process runs \<open>mm_init\<close> and the state changes.
\<close>

theorem malloc_zero_unset_counterexample:
  "malloc 0 (boot 0x1400000) \<noteq> return (0, boot 0x1400000)"
  by (rule malloc_zero_unset) simp

section \<open>C10: coalescing with an empty free list\<close>

text \<open>
  C10. When the free list is empty (\<open>free_p\<close> is \<open>NULL\<close>), \<open>coalesce\<close> returns its
  argument and the state unchanged; and it does so whatever the memory holds, so its
  result depends on no tag and no link.
\<close>

theorem coalesce_empty_free_list:
  "free_p s = 0 \<Longrightarrow> coalesce bp s = (bp, s) \<and> (\<forall>m'. coalesce bp (s\<lparr>mem := m'\<rparr>) = (bp, s\<lparr>mem := m'\<rparr>))"
  by (simp add: coalesce_def)

theorem coalesce_empty_free_list_witness:
  "free_p (boot 0x1400000) = 0
   \<and> coalesce 0x10020 (boot 0x1400000) = (0x10020, boot 0x1400000)"
  using coalesce_empty_free_list [of "boot 0x1400000" "0x10020"] by simp

section \<open>C9: lazy initialisation\<close>

lemma after_init_set:
  assumes "\<And>s1. heap_listp s1 \<noteq> 0 \<Longrightarrow> f s1 = g s1"
  shows "bind_run (mm_init s) (\<lambda>(r, s1). f s1) = bind_run (mm_init s) (\<lambda>(r, s1). g s1)"
proof (cases "mm_init s")
  case None
  then show ?thesis by (simp add: bind_run_def)
next
  case (Some a)
  show ?thesis
  proof (cases a)
    case (Inl e)
    with Some show ?thesis by (simp add: bind_run_def)
  next
    case (Inr x)
    obtain r s1 where x: "x = (r, s1)" by (cases x)
    with Some Inr have "heap_listp s1 \<noteq> 0" using mm_init_sets_heap_listp by blast
    with Some Inr x assms show ?thesis by (simp add: bind_run_def)
  qed
qed

lemma bind_run_assoc: "bind_run (bind_run r f) g = bind_run r (\<lambda>x. bind_run (f x) g)"
  by (auto simp: bind_run_def split: option.splits sum.splits)

lemma malloc_unset:
  assumes "heap_listp s = 0"
  shows "malloc sz s = after_init (malloc sz) s"
proof -
  define F where "F = (\<lambda>s1. if sz = 0 then return (0, s1)
       else (let asize = adjusted_size sz in
         case find_fit asize s1 of
           None \<Rightarrow> None
         | Some bp \<Rightarrow>
             if bp \<noteq> 0 then return (bp, place bp asize s1)
             else (let extendsize = MAX_of asize CHUNKSIZE in
               bind_run (extend_heap (extendsize div WSIZE) s1) (\<lambda>(bp1, s2).
                 if bp1 = 0 then return (0, s2)
                 else return (bp1, place bp1 asize s2)))))"
  have m: "malloc sz t = bind_run (init_if_unset t) F" for t
    unfolding malloc_def F_def ..
  have "malloc sz s = bind_run (mm_init s) (\<lambda>(r, s1). F s1)"
    using assms by (simp add: m init_if_unset_def bind_run_assoc case_prod_unfold)
  also have "\<dots> = bind_run (mm_init s) (\<lambda>(r, s1). malloc sz s1)"
    by (rule after_init_set) (simp add: m)
  finally show ?thesis by (simp add: after_init_def)
qed

lemma free_unset:
  assumes "heap_listp s = 0" "bp \<noteq> 0"
    and "\<And>r s1. mm_init s = Some (Inr (r, s1))
           \<Longrightarrow> GET_SIZE (mem s1) (HDRP bp) = GET_SIZE (mem s) (HDRP bp)"
  shows "free bp s = after_init (free bp) s"
proof -
  define F where "F = (\<lambda>sz s1.
          let m1 = PUT (mem s1) (HDRP bp) (PACK sz 0);
              m2 = PUT m1 (FTRP m1 bp) (PACK sz 0);
              (bp1, s2) = coalesce bp (s1\<lparr>mem := m2\<rparr>)
          in return (insert_free_block bp1 s2))"
  have f: "free bp t = bind_run (init_if_unset t) (F (ucast (GET_SIZE (mem t) (HDRP bp))))" for t
    unfolding free_def F_def Let_def using assms(2) by simp
  show ?thesis
  proof (cases "mm_init s")
    case None
    then show ?thesis using assms(1) by (simp add: f after_init_def init_if_unset_def bind_run_def)
  next
    case (Some a)
    show ?thesis
    proof (cases a)
      case (Inl e)
      with Some show ?thesis using assms(1) by (simp add: f after_init_def init_if_unset_def bind_run_def)
    next
      case (Inr x)
      obtain r s1 where x: "x = (r, s1)" by (cases x)
      with Some Inr have mi: "mm_init s = Some (Inr (r, s1))" by simp
      then have h: "heap_listp s1 \<noteq> 0" by (rule mm_init_sets_heap_listp)
      have g: "GET_SIZE (mem s1) (HDRP bp) = GET_SIZE (mem s) (HDRP bp)"
        using mi by (rule assms(3))
      show ?thesis
        using assms(1) h g mi by (simp add: f after_init_def init_if_unset_def bind_run_def return_def)
    qed
  qed
qed

text \<open>
  C9, as amended. \<open>malloc\<close> called while \<open>heap_listp\<close> is unset behaves exactly as
  \<open>mm_init\<close> followed by \<open>malloc\<close>. \<open>free(NULL)\<close> returns at once and initialises
  nothing. \<open>free\<close> of a non-null pointer reads the size in the block's header, then
  initialises, so it behaves as \<open>mm_init\<close> followed by \<open>free\<close> whenever the
  initialisation leaves that header's size as it was.
\<close>

theorem lazy_initialisation:
  "(heap_listp s = 0 \<longrightarrow> malloc sz s = after_init (malloc sz) s)
   \<and> free 0 s = return s
   \<and> (heap_listp s = 0 \<and> bp \<noteq> 0
        \<and> (\<forall>r s1. mm_init s = Some (Inr (r, s1))
              \<longrightarrow> GET_SIZE (mem s1) (HDRP bp) = GET_SIZE (mem s) (HDRP bp))
      \<longrightarrow> free bp s = after_init (free bp) s)"
  using malloc_unset [of s sz] free_unset [of s bp] by (auto simp: free_def)

text \<open>
  C9 as stated fails for \<open>free\<close>: on the fresh process \<open>free(NULL)\<close> returns with
  \<open>heap_listp\<close> still unset, which is not what \<open>mm_init\<close> followed by \<open>free(NULL)\<close> does.
\<close>

theorem free_null_unset_counterexample:
  "heap_listp (boot 0x1400000) = 0
   \<and> free 0 (boot 0x1400000) = return (boot 0x1400000)
   \<and> free 0 (boot 0x1400000) \<noteq> after_init (free 0) (boot 0x1400000)"
proof -
  have "after_init (free 0) (boot 0x1400000) \<noteq> return (boot 0x1400000)"
  proof
    assume "after_init (free 0) (boot 0x1400000) = return (boot 0x1400000)"
    then obtain r where "mm_init (boot 0x1400000) = Some (Inr (r, boot 0x1400000))"
      by (auto simp: after_init_def return_def free_def dest!: bind_run_returns)
    then have "heap_listp (boot 0x1400000) \<noteq> 0" by (rule mm_init_sets_heap_listp)
    then show False by simp
  qed
  then show ?thesis by (simp add: free_def)
qed


section \<open>C5: realloc when the allocation fails\<close>

lemma extension_size:
  assumes "8 dvd unat (x :: size_t)"
  shows "ALIGN (if (x div WSIZE) mod 2 \<noteq> 0 then (x div WSIZE + 1) * WSIZE else (x div WSIZE) * WSIZE) = x"
proof -
  from assms obtain k where k: "unat x = 8 * k" by (elim dvdE)
  have kb: "8 * k < 2 ^ 64" using unat_lt_64 [of x] k by simp
  have d: "unat (x div 4) = 2 * k" by (simp add: unat_div_distrib k)
  have "unat ((x div 4) mod 2) = 0" by (simp add: unat_mod_distrib d)
  then have ev: "(x div 4) mod 2 = 0" by (simp add: unat_eq_zero)
  have "unat (x div 4) * unat (4 :: 64 word) < 2 ^ 64" using kb d by simp
  then have "unat ((x div 4) * 4) = unat (x div 4) * unat (4 :: 64 word)"
    using unat_mult_lem [of "x div 4" 4] by simp
  then have "unat ((x div 4) * 4) = 8 * k" using d by simp
  then have m: "(x div 4) * 4 = x" using k by (simp add: word_unat_eq_iff)
  have "unat (x + of_nat 7) = unat x + 7"
    using kb k by (intro unat_plus_nat) simp
  then have u: "unat (x + of_nat 7) = 8 * k + 7" by (simp add: k)
  have "unat ((x + of_nat 7) AND NOT 7) = unat (x + of_nat 7) - unat (x + of_nat 7) mod 8"
    by (rule unat_and_not_7_64)
  also have "\<dots> = 8 * k" unfolding u by simp
  finally have "unat ((x + of_nat 7) AND NOT 7) = unat x" by (simp only: k)
  then have "(x + of_nat 7) AND NOT 7 = x" by (simp only: word_unat_eq_iff)
  then have "ALIGN x = x" by (simp add: ALIGN_def)
  then show ?thesis using ev m by simp
qed

lemma dvd8_extendsize: "8 dvd unat (MAX_of (adjusted_size sz) CHUNKSIZE)"
  using dvd8_adjusted_size [of sz] by (simp add: MAX_of_def)

lemma extend_heap_out_of_memory:
  assumes "unat (mem_max_addr s) < unat (mem_brk s) + unat x" and "8 dvd unat x"
  shows "extend_heap (x div WSIZE) s = return (0, s)"
  unfolding extend_heap_def extension_size [OF assms(2)] Let_def
  using assms(1) by (simp add: mem_sbrk_def)

lemma malloc_out_of_memory:
  assumes "heap_listp s \<noteq> 0" "sz \<noteq> 0"
    and "find_fit (adjusted_size sz) s = Some 0"
    and "unat (mem_max_addr s) < unat (mem_brk s) + unat (MAX_of (adjusted_size sz) CHUNKSIZE)"
  shows "malloc sz s = return (0, s)"
  using assms extend_heap_out_of_memory [OF assms(4) dvd8_extendsize]
  by (simp add: malloc_def Let_def)

text \<open>
  C5. Let \<open>ptr\<close> be a non-null pointer on an initialised allocator and \<open>sz > 0\<close> a size
  whose adjusted size differs from the size of the block at \<open>ptr\<close>. When the fresh
  allocation fails (no block of the free list fits and the heap cannot grow by the
  extension \<open>malloc\<close> asks for), \<open>realloc\<close> returns \<open>NULL\<close> and the state it leaves is the
  state it found: the block at \<open>ptr\<close> keeps its tags and every byte of its payload.
\<close>

theorem realloc_failure_intact:
  assumes "heap_listp s \<noteq> 0" "ptr \<noteq> 0" "sz \<noteq> 0"
    and "ucast (GET_SIZE (mem s) (HDRP ptr)) \<noteq> adjusted_size sz"
    and "find_fit (adjusted_size sz) s = Some 0"
    and "unat (mem_max_addr s) < unat (mem_brk s) + unat (MAX_of (adjusted_size sz) CHUNKSIZE)"
  shows "malloc sz s = return (0, s) \<and> realloc ptr sz s = return (0, s)"
  using assms malloc_out_of_memory [of s sz]
  by (simp add: realloc_def Let_def)

lemma find_fit_from_none:
  assumes "free_list m p bs"
    and "\<forall>b \<in> set bs. \<not> asize \<le> ucast (GET_SIZE m (HDRP b))"
  shows "find_fit_from m asize p = Some 0"
  using assms
proof (induction bs arbitrary: p)
  case Nil
  then show ?case by (subst find_fit_from.simps) simp
next
  case (Cons x xs)
  then have "find_fit_from m asize (NEXT_FREE_BLOCK m x) = Some 0" by simp
  with Cons.prems show ?case by (subst find_fit_from.simps) auto
qed

lemma heap_W_free_list: "free_list heap_W_mem 0x10020 [0x10020, 0x100C0]"
  by (simp add: NEXT_FREE_BLOCK_def heap_W_links)

lemma heap_W_no_fit_5000: "find_fit (adjusted_size 5000) (heap_W cap) = Some 0"
  unfolding find_fit_def
  by (simp, rule find_fit_from_none [OF heap_W_free_list])
     (simp add: adjusted_size_def MAX_of_def GET_SIZE_def HDRP_def heap_W_tags)

theorem realloc_failure_intact_witness:
  "heap_listp (heap_W 0x1020) \<noteq> 0 \<and> (0x10038 :: addr) \<noteq> 0 \<and> (5000 :: size_t) \<noteq> 0
   \<and> ucast (GET_SIZE (mem (heap_W 0x1020)) (HDRP 0x10038)) \<noteq> adjusted_size 5000
   \<and> find_fit (adjusted_size 5000) (heap_W 0x1020) = Some 0
   \<and> unat (mem_max_addr (heap_W 0x1020))
       < unat (mem_brk (heap_W 0x1020)) + unat (MAX_of (adjusted_size 5000) CHUNKSIZE)
   \<and> malloc 5000 (heap_W 0x1020) = return (0, heap_W 0x1020)
   \<and> realloc 0x10038 5000 (heap_W 0x1020) = return (0, heap_W 0x1020)"
proof -
  have a: "ucast (GET_SIZE (mem (heap_W 0x1020)) (HDRP 0x10038)) \<noteq> adjusted_size 5000"
    by (simp add: adjusted_size_def MAX_of_def GET_SIZE_def HDRP_def heap_W_tags)
  have b: "unat (mem_max_addr (heap_W 0x1020))
       < unat (mem_brk (heap_W 0x1020)) + unat (MAX_of (adjusted_size 5000) CHUNKSIZE)"
    by (simp add: adjusted_size_def MAX_of_def)
  show ?thesis
    using realloc_failure_intact [of "heap_W 0x1020" "0x10038" 5000] a b heap_W_no_fit_5000 [of "0x1020"]
    by simp
qed

section \<open>C4: calloc when the allocation fails\<close>

lemma calloc_malloc_null:
  assumes "malloc (nmemb * sz) s = return (0, s')" "nmemb * sz \<noteq> 0"
  shows "calloc nmemb sz s = Some (Inl Null_write)"
  using assms by (simp add: calloc_def Let_def)

text \<open>
  C4, evaluated where it fails. With the heap at its limit, \<open>malloc(5000)\<close> returns
  \<open>NULL\<close> and \<open>calloc(1, 5000)\<close> passes that \<open>NULL\<close> to \<open>memset\<close> with 5000 bytes to
  write: the call does not return \<open>NULL\<close>, it ends in a write through the null pointer.
\<close>

theorem calloc_out_of_memory:
  "malloc (1 * 5000) (heap_W 0x1020) = return (0, heap_W 0x1020)
   \<and> calloc 1 5000 (heap_W 0x1020) = Some (Inl Null_write)"
proof -
  have b: "unat (mem_max_addr (heap_W 0x1020))
       < unat (mem_brk (heap_W 0x1020)) + unat (MAX_of (adjusted_size 5000) CHUNKSIZE)"
    by (simp add: adjusted_size_def MAX_of_def)
  have "malloc 5000 (heap_W 0x1020) = return (0, heap_W 0x1020)"
    by (rule malloc_out_of_memory [OF _ _ heap_W_no_fit_5000 b]) simp_all
  then show ?thesis using calloc_malloc_null [of 1 5000 "heap_W 0x1020" "heap_W 0x1020"] by simp
qed


section \<open>C6: what the checker checks\<close>


lemma check_blocks_skipped:
  assumes "\<not> (mem_heap_lo s + WSIZE - (WSIZE - 1) > mem_heap_hi s)"
  shows "check_blocks s (mem_heap_lo s + WSIZE) = Some None"
  using assms by (subst check_blocks.simps) simp

text \<open>
  C6, evaluated where it fails. In \<open>heap_W_clobbered\<close> the block \<open>p2\<close> has size 112 in
  its header and size 0 in its footer, and \<open>mm_checkheap\<close> returns without a complaint:
  the loop over the blocks starts with a condition that is false, so no block is checked.
\<close>

theorem checkheap_misses_block:
  "GET_SIZE (mem (heap_W_clobbered 0x1400000)) (HDRP 0x10038) = 112
   \<and> GET_SIZE (mem (heap_W_clobbered 0x1400000)) (FTRP (mem (heap_W_clobbered 0x1400000)) 0x10038) = 0
   \<and> mm_checkheap (heap_W_clobbered 0x1400000)
       = return ((heap_W_clobbered 0x1400000)
           \<lparr>checkheap_runs := checkheap_runs (heap_W_clobbered 0x1400000) + 1\<rparr>)"
  by (simp add: heap_W_clobbered_def mm_checkheap_def Let_def macros read_write heap_W_links heap_W_tags
      mem_heap_lo_def mem_heap_hi_def mem_heapsize_def check_free_list.simps check_blocks.simps
      lift_check_def exit_with_def)


section \<open>Evaluating the model on concrete heaps\<close>

lemmas model_defs = malloc_def init_if_unset_def mm_init_def mem_sbrk_def bind_run_def return_def
  extend_heap_def Let_def ALIGN_def PACK_def coalesce_def insert_free_block_def remove_block_def
  mm_checkheap_def exit_with_def lift_check_def mem_heap_lo_def mem_heap_hi_def mem_heapsize_def
  check_free_list.simps check_blocks.simps find_fit_def find_fit_from.simps adjusted_size_def
  MAX_of_def

lemma runs_place [simp]: "checkheap_runs (place bp asize s) = checkheap_runs s"
  using env_place [OF env_refl, of s bp asize] by (simp add: same_env_def)



lemma lazy_witness_header:
  "\<forall>r s1. mm_init (boot 0x1400000) = Some (Inr (r, s1))
      \<longrightarrow> GET_SIZE (mem s1) (HDRP 0x20000) = GET_SIZE (mem (boot 0x1400000)) (HDRP 0x20000)"
  by (auto simp add: model_defs macros read_write)


section \<open>C7: who runs the checker\<close>

lemma return_eq [simp]: "return x = return y \<longleftrightarrow> x = y"
  by (simp add: return_def)



















theorem lazy_initialisation_witness:
  "heap_listp (boot 0x1400000) = 0
   \<and> malloc 16 (boot 0x1400000) = after_init (malloc 16) (boot 0x1400000)
   \<and> free 0 (boot 0x1400000) = return (boot 0x1400000)
   \<and> (0x20000 :: addr) \<noteq> 0
   \<and> free 0x20000 (boot 0x1400000) = after_init (free 0x20000) (boot 0x1400000)"
  using lazy_initialisation [of "boot 0x1400000" 16 "0x20000"] lazy_witness_header
  by simp

section \<open>C3 on a concrete heap\<close>



section \<open>C2 on a concrete heap\<close>

lemma heap_W_inv:
  "heap_inv (heap_W cap) [(24, True), (24, False), (112, True), (24, True), (3936, False)]"
  by (simp add: heap_inv_def heap_chain_def tag_def PACK_def links_closed_def blk_ptr_def
      HDRP_def NEXT_FREE_BLOCK_def PREV_FREE_BLOCK_def heap_W_tags heap_W_links)

theorem free_coalesces_witness:
  "heap_inv (heap_W 0x1400000) ([(24, True), (24, False)] @ (112, True) # [(24, True), (3936, False)])
   \<and> [(24, True), (24, False)] \<noteq> ([] :: blk list)
   \<and> heap_listp (heap_W 0x1400000) \<noteq> 0
   \<and> (0x10038 :: addr) = blk_ptr (HDRP (heap_listp (heap_W 0x1400000))) (total_size [(24, True), (24, False)])
   \<and> (0x10038 :: addr) \<noteq> 0
   \<and> (\<exists>t s' xs n zs. free 0x10038 (heap_W 0x1400000) = return s'
        \<and> s' = insert_free_block (fst (coalesce 0x10038 t)) (snd (coalesce 0x10038 t))
        \<and> heap_listp s' = heap_listp (heap_W 0x1400000)
        \<and> heap_chain (mem s') (HDRP (heap_listp (heap_W 0x1400000))) (xs @ (n, False) # zs)
        \<and> no_adjacent_free (xs @ (n, False) # zs)
        \<and> free_p s' = blk_ptr (HDRP (heap_listp (heap_W 0x1400000))) (total_size xs)
        \<and> total_size xs \<le> total_size [(24, True), (24, False)]
        \<and> total_size [(24, True), (24, False)] + 112 \<le> total_size xs + n
        \<and> total_size (xs @ (n, False) # zs)
            = total_size ([(24, True), (24, False)] @ (112, True) # [(24, True), (3936, False)]))"
proof -
  have a: "heap_inv (heap_W 0x1400000) ([(24, True), (24, False)] @ (112, True) # [(24, True), (3936, False)])"
    using heap_W_inv [of "0x1400000"] by simp
  have b: "[(24, True), (24, False)] \<noteq> ([] :: blk list)" by simp
  have c: "heap_listp (heap_W 0x1400000) \<noteq> 0" by simp
  have d: "(0x10038 :: addr) = blk_ptr (HDRP (heap_listp (heap_W 0x1400000))) (total_size [(24, True), (24, False)])"
    by (simp add: blk_ptr_def HDRP_def)
  have e: "(0x10038 :: addr) \<noteq> 0" by simp
  show ?thesis
    using free_coalesces [OF a b c d e] a b c d e by (simp only: simp_thms)
qed

end
